theory Spec2Isabelle
  imports Main "HOL-Library.Sublist"
begin

section \<open>Texts and characters\<close>

text \<open>
  A text of the program (a JavaScript string) is modelled as a list of 8-bit characters,
  each standing for one code unit below 256 (the Latin-1 range).  The character
  classes below are the ECMAScript ones cut down to that range.  Numbers that the
  program only counts with (line numbers, budgets) are exact integers.
\<close>

abbreviation dq :: char where "dq \<equiv> CHR 0x22"
abbreviation sq :: char where "sq \<equiv> CHR 0x27"
abbreviation nl :: char where "nl \<equiv> CHR 0x0A"
abbreviation cr :: char where "cr \<equiv> CHR 0x0D"
abbreviation tab :: char where "tab \<equiv> CHR 0x09"
abbreviation bsl :: char where "bsl \<equiv> CHR 0x5C"

definition isLineTerminator :: "char \<Rightarrow> bool" where
  "isLineTerminator c = (c = nl \<or> c = cr)"

definition isWhiteSpace :: "char \<Rightarrow> bool" where
  \<comment> \<open>the class of white space (also what \<open>trim\<close> strips): TAB, LF, VT, FF, CR, SP, NBSP\<close>
  "isWhiteSpace c = (c = tab \<or> c = nl \<or> c = CHR 0x0B \<or> c = CHR 0x0C \<or> c = cr
      \<or> c = CHR '' '' \<or> c = CHR 0xA0)"

definition isDigit :: "char \<Rightarrow> bool" where
  "isDigit c = (c \<in> set ''0123456789'')"

definition isWordChar :: "char \<Rightarrow> bool" where
  \<comment> \<open>the class of word characters: letters, digits and the underscore\<close>
  "isWordChar c =
     (c \<in> set ''abcdefghijklmnopqrstuvwxyzABCDEFGHIJKLMNOPQRSTUVWXYZ0123456789_'')"

definition lowerUpperPairs :: "(char \<times> char) list" where
  \<comment> \<open>the letters below 256 that have an upper-case form below 256, with that form\<close>
  "lowerUpperPairs = zip ''abcdefghijklmnopqrstuvwxyz'' ''ABCDEFGHIJKLMNOPQRSTUVWXYZ''
     @ zip [CHR 0xE0, CHR 0xE1, CHR 0xE2, CHR 0xE3, CHR 0xE4, CHR 0xE5, CHR 0xE6, CHR 0xE7,
            CHR 0xE8, CHR 0xE9, CHR 0xEA, CHR 0xEB, CHR 0xEC, CHR 0xED, CHR 0xEE, CHR 0xEF,
            CHR 0xF0, CHR 0xF1, CHR 0xF2, CHR 0xF3, CHR 0xF4, CHR 0xF5, CHR 0xF6,
            CHR 0xF8, CHR 0xF9, CHR 0xFA, CHR 0xFB, CHR 0xFC, CHR 0xFD, CHR 0xFE]
           [CHR 0xC0, CHR 0xC1, CHR 0xC2, CHR 0xC3, CHR 0xC4, CHR 0xC5, CHR 0xC6, CHR 0xC7,
            CHR 0xC8, CHR 0xC9, CHR 0xCA, CHR 0xCB, CHR 0xCC, CHR 0xCD, CHR 0xCE, CHR 0xCF,
            CHR 0xD0, CHR 0xD1, CHR 0xD2, CHR 0xD3, CHR 0xD4, CHR 0xD5, CHR 0xD6,
            CHR 0xD8, CHR 0xD9, CHR 0xDA, CHR 0xDB, CHR 0xDC, CHR 0xDD, CHR 0xDE]"

fun lookupChar :: "(char \<times> char) list \<Rightarrow> char \<Rightarrow> char" where
  "lookupChar [] c = c"
| "lookupChar ((a, b) # t) c = (if c = a then b else lookupChar t c)"

definition toLowerChar :: "char \<Rightarrow> char" where
  "toLowerChar c = lookupChar (map (\<lambda>(a, b). (b, a)) lowerUpperPairs) c"

definition toLowerCase :: "string \<Rightarrow> string" where
  "toLowerCase s = map toLowerChar s"

definition canonicalize :: "bool \<Rightarrow> char \<Rightarrow> char" where
  \<comment> \<open>the comparison key of a character under the \<open>i\<close> flag (its upper-case form)\<close>
  "canonicalize ic c = (if ic then lookupChar lowerUpperPairs c else c)"

definition trim :: "string \<Rightarrow> string" where
  "trim s = rev (dropWhile isWhiteSpace (rev (dropWhile isWhiteSpace s)))"

definition startsWith :: "string \<Rightarrow> string \<Rightarrow> bool" where
  "startsWith s w = (take (length w) s = w)"

fun includesStr :: "string \<Rightarrow> string \<Rightarrow> bool" where
  "includesStr [] w = (w = [])"
| "includesStr (c # s) w = (startsWith (c # s) w \<or> includesStr s w)"

fun splitOn :: "char \<Rightarrow> string \<Rightarrow> string list" where
  \<comment> \<open>\<open>s.split(c)\<close> for a one-character separator\<close>
  "splitOn c [] = [[]]"
| "splitOn c (x # xs) =
     (if x = c then [] # splitOn c xs
      else (case splitOn c xs of [] \<Rightarrow> [[x]] | l # ls \<Rightarrow> (x # l) # ls))"

section \<open>Regular expressions\<close>

text \<open>
  The patterns of the program are values of \<open>rx\<close>; \<open>rxm\<close> is the backtracking matcher
  of ECMAScript: it returns the states in which a match of the pattern can end, in the
  order in which the engine tries them, so that the head of the list is the match the
  engine reports.  A state is the character before the position, the text from the
  position on, and the captures made so far.
\<close>

datatype citem = CChar char | CSpace | CDigit | CWord | CNonSpace

datatype rx =
    REmpty
  | RStr string
  | RSet bool "citem list"
  | RAny
  | RSeq rx rx
  | RAlt rx rx
  | RStar bool rx
  | RGroup nat rx
  | RNotAhead rx
  | RWordB
  | REol

type_synonym captures = "(nat \<times> string) list"
type_synonym mstate = "char option \<times> string \<times> captures"

abbreviation RPlus :: "rx \<Rightarrow> rx" where
  "RPlus r \<equiv> RSeq r (RStar True r)"
abbreviation ROpt :: "rx \<Rightarrow> rx" where
  "ROpt r \<equiv> RAlt r REmpty"
abbreviation RIn :: "citem list \<Rightarrow> rx" where
  "RIn items \<equiv> RSet False items"
abbreviation RNotIn :: "citem list \<Rightarrow> rx" where
  "RNotIn items \<equiv> RSet True items"

fun RCat :: "rx list \<Rightarrow> rx" where
  "RCat [] = REmpty"
| "RCat [r] = r"
| "RCat (r # rs) = RSeq r (RCat rs)"

fun inItem :: "bool \<Rightarrow> char \<Rightarrow> citem \<Rightarrow> bool" where
  "inItem ic ch (CChar c) = (canonicalize ic ch = canonicalize ic c)"
| "inItem ic ch CSpace = isWhiteSpace ch"
| "inItem ic ch CDigit = isDigit ch"
| "inItem ic ch CWord = isWordChar ch"
| "inItem ic ch CNonSpace = (\<not> isWhiteSpace ch)"

fun groupsOf :: "rx \<Rightarrow> nat list" where
  "groupsOf (RSeq a b) = groupsOf a @ groupsOf b"
| "groupsOf (RAlt a b) = groupsOf a @ groupsOf b"
| "groupsOf (RStar g r) = groupsOf r"
| "groupsOf (RGroup n r) = n # groupsOf r"
| "groupsOf (RNotAhead r) = groupsOf r"
| "groupsOf r = []"

definition setCapture :: "nat \<Rightarrow> string \<Rightarrow> captures \<Rightarrow> captures" where
  "setCapture n w c = (n, w) # filter (\<lambda>kv. fst kv \<noteq> n) c"

definition clearCaptures :: "nat list \<Rightarrow> captures \<Rightarrow> captures" where
  "clearCaptures ns c = filter (\<lambda>kv. fst kv \<notin> set ns) c"

definition lastOr :: "char option \<Rightarrow> string \<Rightarrow> char option" where
  "lastOr p w = (if w = [] then p else Some (last w))"

function rxm :: "bool \<Rightarrow> bool \<Rightarrow> rx \<Rightarrow> mstate \<Rightarrow> mstate list" where
  "rxm ic ml REmpty st = [st]"
| "rxm ic ml (RStr w) (p, s, c) =
     (if length w \<le> length s \<and> map (canonicalize ic) (take (length w) s) = map (canonicalize ic) w
      then [(lastOr p (take (length w) s), drop (length w) s, c)] else [])"
| "rxm ic ml (RSet neg items) (p, s, c) =
     (case s of [] \<Rightarrow> []
      | ch # s' \<Rightarrow> if list_ex (inItem ic ch) items \<noteq> neg then [(Some ch, s', c)] else [])"
| "rxm ic ml RAny (p, s, c) =
     (case s of [] \<Rightarrow> []
      | ch # s' \<Rightarrow> if isLineTerminator ch then [] else [(Some ch, s', c)])"
| "rxm ic ml (RSeq a b) st = concat (map (rxm ic ml b) (rxm ic ml a st))"
| "rxm ic ml (RAlt a b) st = rxm ic ml a st @ rxm ic ml b st"
| "rxm ic ml (RStar greedy r) (p, s, c) =
     (let again = concat (map (\<lambda>st'. if length (fst (snd st')) < length s
                                        then rxm ic ml (RStar greedy r) st' else [])
                          (rxm ic ml r (p, s, clearCaptures (groupsOf r) c)))
      in if greedy then again @ [(p, s, c)] else (p, s, c) # again)"
| "rxm ic ml (RGroup n r) (p, s, c) =
     map (\<lambda>(p', s', c'). (p', s', setCapture n (take (length s - length s') s) c'))
         (rxm ic ml r (p, s, c))"
| "rxm ic ml (RNotAhead r) st = (if rxm ic ml r st = [] then [st] else [])"
| "rxm ic ml RWordB (p, s, c) =
     (if (case p of None \<Rightarrow> False | Some a \<Rightarrow> isWordChar a)
         \<noteq> (case s of [] \<Rightarrow> False | b # _ \<Rightarrow> isWordChar b)
      then [(p, s, c)] else [])"
| "rxm ic ml REol (p, s, c) =
     (if s = [] \<or> (ml \<and> isLineTerminator (hd s)) then [(p, s, c)] else [])"
  by pat_completeness auto
termination
  by (relation "inv_image (less_than <*lex*> less_than)
        (\<lambda>(ic, ml, r, st). (size r, length (fst (snd st))))") auto

text \<open>Every end state of a match lies at or after its start: the rest is a suffix.\<close>

lemma rxm_suffix:
  "(p', s', c') \<in> set (rxm ic ml r (p, s, c)) \<Longrightarrow> suffix s' s"
proof (induction ic ml r "(p, s, c)" arbitrary: p s c p' s' c' rule: rxm.induct)
  case (2 ic ml w p s c)
  then show ?case by (auto simp: suffix_drop split: if_splits)
next
  case (3 ic ml neg items p s c)
  then show ?case by (auto split: list.splits if_splits simp: suffix_Cons)
next
  case (4 ic ml p s c)
  then show ?case by (auto split: list.splits if_splits simp: suffix_Cons)
next
  case (5 ic ml a b)
  from "5.prems" obtain st where st: "st \<in> set (rxm ic ml a (p, s, c))"
    and in_b: "(p', s', c') \<in> set (rxm ic ml b st)" by auto
  obtain p1 s1 c1 where st_eq: "st = (p1, s1, c1)" by (cases st)
  from "5.hyps"(1) st st_eq have "suffix s1 s" by blast
  moreover from "5.hyps"(2) st st_eq in_b have "suffix s' s1" by blast
  ultimately show ?case by (rule suffix_order.trans[rotated])
next
  case (7 ic ml greedy r p s c)
  from "7.prems" have "(p', s', c') = (p, s, c) \<or>
    (\<exists>st \<in> set (rxm ic ml r (p, s, clearCaptures (groupsOf r) c)).
       length (fst (snd st)) < length s \<and> (p', s', c') \<in> set (rxm ic ml (RStar greedy r) st))"
    by (auto simp: Let_def split: if_splits)
  then show ?case
  proof
    assume "(p', s', c') = (p, s, c)" then show ?thesis by simp
  next
    assume "\<exists>st \<in> set (rxm ic ml r (p, s, clearCaptures (groupsOf r) c)).
       length (fst (snd st)) < length s \<and> (p', s', c') \<in> set (rxm ic ml (RStar greedy r) st)"
    then obtain st where st: "st \<in> set (rxm ic ml r (p, s, clearCaptures (groupsOf r) c))"
      and lt: "length (fst (snd st)) < length s"
      and rec: "(p', s', c') \<in> set (rxm ic ml (RStar greedy r) st)" by blast
    obtain p1 s1 c1 where st_eq: "st = (p1, s1, c1)" by (cases st)
    from "7.hyps"(1) st st_eq have "suffix s1 s" by blast
    moreover from "7.hyps"(2) st lt rec st_eq have "suffix s' s1" by simp
    ultimately show ?thesis by (rule suffix_order.trans[rotated])
  qed
qed (auto split: if_splits)


subsection \<open>The operations of the host on patterns\<close>

text \<open>
  A regular expression literal is a pattern with its flags (\<open>g\<close>, \<open>i\<close>, \<open>m\<close>).
  \<open>rxSearch\<close> finds the leftmost match from a position on: the text skipped before
  it, the matched text, the captures, and the state where the match ends.
\<close>

datatype regex = Regex rx string

fun pattern :: "regex \<Rightarrow> rx" where
  "pattern (Regex r fl) = r"

fun flagG :: "regex \<Rightarrow> bool" where
  "flagG (Regex r fl) = (CHR ''g'' \<in> set fl)"

fun flagI :: "regex \<Rightarrow> bool" where
  "flagI (Regex r fl) = (CHR ''i'' \<in> set fl)"

fun flagM :: "regex \<Rightarrow> bool" where
  "flagM (Regex r fl) = (CHR ''m'' \<in> set fl)"

type_synonym found = "string \<times> string \<times> captures \<times> char option \<times> string"

fun rxSearch :: "bool \<Rightarrow> bool \<Rightarrow> rx \<Rightarrow> char option \<Rightarrow> string \<Rightarrow> found option" where
  "rxSearch ic ml r p [] =
     (case rxm ic ml r (p, [], []) of
        [] \<Rightarrow> None
      | (p', s', c) # _ \<Rightarrow> Some ([], [], c, p', s'))"
| "rxSearch ic ml r p (ch # t) =
     (case rxm ic ml r (p, ch # t, []) of
        [] \<Rightarrow> (case rxSearch ic ml r (Some ch) t of
                 None \<Rightarrow> None
               | Some (pre, m, c, p', s') \<Rightarrow> Some (ch # pre, m, c, p', s'))
      | (p', s', c) # _ \<Rightarrow> Some ([], take (length (ch # t) - length s') (ch # t), c, p', s'))"

definition capture :: "captures \<Rightarrow> nat \<Rightarrow> string option" where
  "capture c n = map_of c n"

definition regexTest :: "regex \<Rightarrow> string \<Rightarrow> bool" where
  \<comment> \<open>\<open>re.test(s)\<close> for a pattern without the \<open>g\<close> flag\<close>
  "regexTest re s = (rxSearch (flagI re) (flagM re) (pattern re) None s \<noteq> None)"

definition stringMatch :: "string \<Rightarrow> regex \<Rightarrow> (string \<times> captures) option" where
  \<comment> \<open>\<open>s.match(re)\<close> for a pattern without the \<open>g\<close> flag: the matched text and the groups\<close>
  "stringMatch s re =
     (case rxSearch (flagI re) (flagM re) (pattern re) None s of
        None \<Rightarrow> None
      | Some (pre, m, c, p', s') \<Rightarrow> Some (m, c))"

definition digitValue :: "char \<Rightarrow> nat" where
  "digitValue c =
     (case map_of (zip ''0123456789'' [0, 1, 2, 3, 4, 5, 6, 7, 8, 9]) c of
        None \<Rightarrow> 0 | Some n \<Rightarrow> n)"

definition parseDecimal :: "string \<Rightarrow> int" where
  \<comment> \<open>\<open>parseInt(s, 10)\<close> on a text of decimal digits\<close>
  "parseDecimal s = int (foldl (\<lambda>n c. 10 * n + digitValue c) 0 s)"

fun getSubstitution ::
  "string \<Rightarrow> string \<Rightarrow> string \<Rightarrow> captures \<Rightarrow> nat \<Rightarrow> string \<Rightarrow> string" where
  "getSubstitution m left right c n [] = []"
| "getSubstitution m left right c n [x] = [x]"
| "getSubstitution m left right c n (x # d # t) =
     (if x \<noteq> CHR ''$'' then x # getSubstitution m left right c n (d # t)
      else if d = CHR ''$'' then CHR ''$'' # getSubstitution m left right c n t
      else if d = CHR ''&'' then m @ getSubstitution m left right c n t
      else if d = CHR 0x60 then left @ getSubstitution m left right c n t
      else if d = sq then right @ getSubstitution m left right c n t
      else if isDigit d then
        (case t of
           e # t' \<Rightarrow>
             if isDigit e \<and> 1 \<le> 10 * digitValue d + digitValue e
                  \<and> 10 * digitValue d + digitValue e \<le> n
             then (case capture c (10 * digitValue d + digitValue e) of None \<Rightarrow> [] | Some w \<Rightarrow> w)
                  @ getSubstitution m left right c n t'
             else if 1 \<le> digitValue d \<and> digitValue d \<le> n
             then (case capture c (digitValue d) of None \<Rightarrow> [] | Some w \<Rightarrow> w)
                  @ getSubstitution m left right c n t
             else CHR ''$'' # getSubstitution m left right c n (d # t)
         | [] \<Rightarrow>
             if 1 \<le> digitValue d \<and> digitValue d \<le> n
             then (case capture c (digitValue d) of None \<Rightarrow> [] | Some w \<Rightarrow> w)
             else [CHR ''$'', d])
      else CHR ''$'' # getSubstitution m left right c n (d # t))"

lemma rxSearch_length:
  "rxSearch ic ml r p s = Some (pre, m, c, p', s') \<Longrightarrow> length pre + length m + length s' = length s"
proof (induction s arbitrary: p pre)
  case Nil
  then obtain sts where hd: "rxm ic ml r (p, [], []) = (p', s', c) # sts"
    and "pre = []" and "m = []"
    by (auto split: list.splits)
  from hd have "(p', s', c) \<in> set (rxm ic ml r (p, [], []))" by simp
  then have "suffix s' []" by (rule rxm_suffix)
  with \<open>pre = []\<close> \<open>m = []\<close> show ?case by simp
next
  case (Cons ch t)
  show ?case
  proof (cases "rxm ic ml r (p, ch # t, [])")
    case Nil
    with Cons.prems obtain pre' where "rxSearch ic ml r (Some ch) t = Some (pre', m, c, p', s')"
      and "pre = ch # pre'" by (auto split: option.splits)
    with Cons.IH show ?thesis by fastforce
  next
    case (Cons st sts)
    obtain p1 s1 c1 where st: "st = (p1, s1, c1)" by (cases st)
    with Cons have "(p1, s1, c1) \<in> set (rxm ic ml r (p, ch # t, []))" by simp
    then have "suffix s1 (ch # t)" by (rule rxm_suffix)
    then have "length s1 \<le> length (ch # t)" by (rule suffix_length_le)
    with Cons st Cons.prems show ?thesis by auto
  qed
qed

lemma rxSearch_shorter:
  assumes "rxSearch ic ml r p s = Some (pre, m, c, p', s')" and "m \<noteq> []"
  shows "length s' < length s"
proof -
  from assms(1) have "length pre + length m + length s' = length s" by (rule rxSearch_length)
  moreover from assms(2) have "0 < length m" by simp
  ultimately show ?thesis by linarith
qed

lemma rxSearch_shorter_tl:
  assumes "rxSearch ic ml r p s = Some (pre, m, c, p', ch # t)"
  shows "length t < length s"
  using rxSearch_length[OF assms] by simp

definition nGroups :: "rx \<Rightarrow> nat" where
  "nGroups r = length (groupsOf r)"

text \<open>
  \<open>s.replace(re, template)\<close>: with the \<open>g\<close> flag every match from left to right is
  replaced, the search going on where the last match ended (one character further
  after an empty match); without it only the first match is replaced.  \<open>seen\<close> is the
  text before the current position, which the template may refer to.
\<close>

function regexReplaceFrom :: "regex \<Rightarrow> string \<Rightarrow> string \<Rightarrow> char option \<Rightarrow> string \<Rightarrow> string" where
  "regexReplaceFrom re tmpl seen p s =
     (case rxSearch (flagI re) (flagM re) (pattern re) p s of
        None \<Rightarrow> s
      | Some (pre, m, c, p', s') \<Rightarrow>
          (let sub = getSubstitution m (seen @ pre) s' c (nGroups (pattern re)) tmpl in
           if \<not> flagG re then pre @ sub @ s'
           else if m = [] then
             (case s' of
                [] \<Rightarrow> pre @ sub
              | ch # t \<Rightarrow> pre @ sub @ ch # regexReplaceFrom re tmpl (seen @ pre @ [ch]) (Some ch) t)
           else pre @ sub @ regexReplaceFrom re tmpl (seen @ pre @ m) p' s'))"
  by pat_completeness auto
termination
proof (relation "measure (\<lambda>(re, tmpl, seen, p, s). length s)")
  show "wf (measure (\<lambda>(re, tmpl, seen, p, s). length s))" by simp
qed (auto dest: rxSearch_shorter rxSearch_shorter_tl)

declare regexReplaceFrom.simps [simp del]

definition regexReplace :: "string \<Rightarrow> regex \<Rightarrow> string \<Rightarrow> string" where
  "regexReplace s re tmpl = regexReplaceFrom re tmpl [] None s"

text \<open>
  The loop \<open>while ((m = re.exec(s))) ...\<close> over a pattern with the \<open>g\<close> flag: the
  matches from left to right.  After an empty match the position does not move and
  the loop never ends, which is the value \<open>None\<close>.
\<close>

function execAll :: "regex \<Rightarrow> char option \<Rightarrow> string \<Rightarrow> (string \<times> captures) list option" where
  "execAll re p s =
     (case rxSearch (flagI re) (flagM re) (pattern re) p s of
        None \<Rightarrow> Some []
      | Some (pre, m, c, p', s') \<Rightarrow>
          if m = [] then None
          else (case execAll re p' s' of None \<Rightarrow> None | Some ms \<Rightarrow> Some ((m, c) # ms)))"
  by pat_completeness auto
termination
proof (relation "measure (\<lambda>(re, p, s). length s)")
  show "wf (measure (\<lambda>(re, p, s). length s))" by simp
qed (auto dest: rxSearch_shorter rxSearch_shorter_tl)

declare execAll.simps [simp del]

text \<open>\<open>s.replace(w, template)\<close> for a text \<open>w\<close>: the first occurrence only.\<close>

fun splitAtFirst :: "string \<Rightarrow> string \<Rightarrow> (string \<times> string) option" where
  "splitAtFirst [] w = (if w = [] then Some ([], []) else None)"
| "splitAtFirst (c # s) w =
     (if startsWith (c # s) w then Some ([], drop (length w) (c # s))
      else (case splitAtFirst s w of None \<Rightarrow> None | Some (b, a) \<Rightarrow> Some (c # b, a)))"

definition stringReplace :: "string \<Rightarrow> string \<Rightarrow> string \<Rightarrow> string" where
  "stringReplace s w tmpl =
     (case splitAtFirst s w of
        None \<Rightarrow> s
      | Some (b, a) \<Rightarrow> b @ getSubstitution w b a [] 0 tmpl @ a)"

section \<open>Issues\<close>

text \<open>
  A value of the host that came out of \<open>JSON.parse\<close>.  A number is kept as the text
  that names it; an object keeps its members in the order in which they were written.
\<close>

datatype jsval =
    JNull
  | JBool bool
  | JNumber string
  | JString string
  | JArray "jsval list"
  | JObject "(string \<times> jsval) list"

record ReviewIssue =
  issue_file :: string
  problem :: string
  issue_fix :: string
  severity :: "jsval option"
  line :: "int option"
  snippet :: "string option"
  autoFixable :: "bool option"
  fixedCode :: "string option"

section \<open>The heuristic scanner (groq.ts)\<close>

definition rx_jsonParse :: regex where
  "rx_jsonParse = Regex (RCat [RStr ''JSON.parse('', RStar True (RIn [CSpace]),
      RPlus (RNotIn [CChar CHR '')'']), RStar True (RIn [CSpace]), RStr '').'',
      RPlus (RIn [CWord])]) []"

definition rx_unhandledPromise :: regex where
  "rx_unhandledPromise = Regex (RCat [RStr ''.'', RPlus (RIn [CWord]), RStr ''().then('']) []"

definition rx_catchHandler :: regex where
  "rx_catchHandler = Regex (RStr ''catch('') []"

definition rx_eval :: regex where
  "rx_eval = Regex (RStr ''eval('') []"

definition rx_hardcodedSecret :: regex where
  "rx_hardcodedSecret = Regex (RCat [
      RGroup 1 (RAlt (RStr ''password'') (RAlt (RStr ''secret'')
        (RAlt (RCat [RStr ''api'', ROpt (RIn [CChar CHR ''_'', CChar CHR ''-'']), RStr ''key''])
              (RStr ''token'')))),
      RStar True (RIn [CSpace]), RStr ''='', RStar True (RIn [CSpace]),
      RIn [CChar sq, CChar dq], RPlus (RNotIn [CChar sq, CChar dq]), RIn [CChar sq, CChar dq]]) ''i''"

definition rx_innerHTML :: regex where
  "rx_innerHTML = Regex (RCat [RStr ''innerHTML'', RStar True (RIn [CSpace]), RStr ''='']) []"

definition rx_sanitize :: regex where
  "rx_sanitize = Regex (RAlt (RStr ''DOMPurify'') (RStr ''sanitize'')) []"

definition rx_emptySrc :: regex where
  "rx_emptySrc = Regex (RCat [RStr ''<img'', RPlus (RNotIn [CChar CHR ''>'']), RStr ''src'',
      RStar True (RIn [CSpace]), RStr ''='', RStar True (RIn [CSpace]),
      RIn [CChar dq, CChar sq], RStar True (RIn [CSpace]), RIn [CChar dq, CChar sq]]) []"

definition rx_emptyHref :: regex where
  "rx_emptyHref = Regex (RCat [RStr ''<a'', RPlus (RNotIn [CChar CHR ''>'']), RStr ''href'',
      RStar True (RIn [CSpace]), RStr ''='', RStar True (RIn [CSpace]),
      RIn [CChar dq, CChar sq], RStar True (RIn [CSpace]), RIn [CChar dq, CChar sq]]) []"

definition rx_addEventListener :: regex where
  "rx_addEventListener = Regex (RStr ''addEventListener('') []"

definition rx_setInterval :: regex where
  "rx_setInterval = Regex (RStr ''setInterval('') []"

definition rx_imgTag :: regex where
  "rx_imgTag = Regex (RStr ''<img'') []"

definition rx_missingAlt :: regex where
  "rx_missingAlt = Regex (RCat [RStr ''<img'', RPlus (RNotIn [CChar CHR ''>'']),
      RNotAhead (RStr ''alt='')]) []"

definition rx_hunkStart :: regex where
  \<comment> \<open>the pattern of the hunk header: a plus sign and a group of digits\<close>
  "rx_hunkStart = Regex (RCat [RStr ''+'', RGroup 1 (RPlus (RIn [CDigit]))]) []"

definition mkIssue :: "string \<Rightarrow> string \<Rightarrow> string \<Rightarrow> string \<Rightarrow> int \<Rightarrow> string \<Rightarrow> ReviewIssue" where
  "mkIssue f pr fx sev ln added =
     \<lparr> issue_file = f, problem = pr, issue_fix = fx, severity = Some (JString sev),
       line = Some ln, snippet = Some (trim added), autoFixable = None, fixedCode = None \<rparr>"

definition scanAdded :: "string \<Rightarrow> int \<Rightarrow> string \<Rightarrow> ReviewIssue list" where
  \<comment> \<open>the rules run on one added line, in the order of the source\<close>
  "scanAdded currentFile lineNumber added =
     (if includesStr added ''JSON.parse'' \<and> regexTest rx_jsonParse added
      then [mkIssue currentFile ''Unsafe JSON.parse - accessing properties without validation''
              ''Validate parsed data before accessing properties'' ''critical'' lineNumber added]
      else [])
   @ (if includesStr added ''.then('' \<and> regexTest rx_unhandledPromise added
          \<and> \<not> regexTest rx_catchHandler added
      then [mkIssue currentFile ''Unhandled promise rejection - missing .catch()''
              ''Add .catch() handler or use try/catch'' ''critical'' lineNumber added]
      else [])
   @ (if includesStr added ''eval'' \<and> regexTest rx_eval added
      then [mkIssue currentFile ''Security: eval() executes arbitrary code''
              ''Use JSON.parse() or safer alternatives'' ''critical'' lineNumber added]
      else [])
   @ (if (includesStr added ''password'' \<or> includesStr added ''secret''
            \<or> includesStr added ''key'' \<or> includesStr added ''token'')
          \<and> regexTest rx_hardcodedSecret added
      then [mkIssue currentFile ''Security: Hardcoded secret detected''
              ''Move to environment variables (.env)'' ''critical'' lineNumber added]
      else [])
   @ (if includesStr added ''innerHTML'' \<and> regexTest rx_innerHTML added
          \<and> \<not> regexTest rx_sanitize added
      then [mkIssue currentFile ''XSS vulnerability: innerHTML without sanitization''
              ''Use textContent or sanitize with DOMPurify'' ''critical'' lineNumber added]
      else [])
   @ (if includesStr added ''<img'' \<and> includesStr added (''src='' @ [dq, dq])
          \<and> regexTest rx_emptySrc added
      then [mkIssue currentFile ''Empty img src causes 404 errors''
              ''Provide valid src or remove tag'' ''critical'' lineNumber added]
      else [])
   @ (if includesStr added ''<a'' \<and> includesStr added (''href='' @ [dq, dq])
          \<and> regexTest rx_emptyHref added
      then [mkIssue currentFile ''Empty href causes page reload''
              ''Use valid href or replace with button'' ''critical'' lineNumber added]
      else [])
   @ (if includesStr added ''addEventListener'' \<and> regexTest rx_addEventListener added
      then [mkIssue currentFile ''Memory leak: addEventListener without cleanup''
              ''Remove listener in cleanup function'' ''warning'' lineNumber added]
      else [])
   @ (if includesStr added ''setInterval'' \<and> regexTest rx_setInterval added
      then [mkIssue currentFile ''Memory leak: setInterval without clearInterval''
              ''Call clearInterval in cleanup'' ''warning'' lineNumber added]
      else [])
   @ (if includesStr added ''<img'' \<and> regexTest rx_imgTag added
          \<and> regexTest rx_missingAlt added
      then [mkIssue currentFile ''Accessibility: Missing alt attribute''
              ''Add alt text for screen readers'' ''warning'' lineNumber added]
      else [])"

fun scanLines :: "string list \<Rightarrow> string \<Rightarrow> int \<Rightarrow> ReviewIssue list \<Rightarrow> ReviewIssue list" where
  "scanLines [] currentFile lineNumber results = results"
| "scanLines (l # ls) currentFile lineNumber results =
     (if startsWith l ''+++ b/''
      then scanLines ls (trim (stringReplace l ''+++ b/'' [])) 0 results
      else if startsWith l ''@@''
      then (case stringMatch l rx_hunkStart of
              Some (m, c) \<Rightarrow>
                scanLines ls currentFile
                  (parseDecimal (case capture c 1 of None \<Rightarrow> [] | Some d \<Rightarrow> d)) results
            | None \<Rightarrow> scanLines ls currentFile lineNumber results)
      else if startsWith l ''+'' \<and> \<not> startsWith l ''+++''
      then scanLines ls currentFile (lineNumber + 1)
             (results @ scanAdded currentFile (lineNumber + 1) (drop 1 l))
      else scanLines ls currentFile lineNumber results)"

definition heuristicScan :: "string \<Rightarrow> (string \<times> string) list \<Rightarrow> ReviewIssue list" where
  "heuristicScan diff context_files = scanLines (splitOn nl diff) [] 0 []"

fun scanState :: "string list \<Rightarrow> string \<Rightarrow> int \<Rightarrow> string \<times> int" where
  \<comment> \<open>the current file and the line counter of the loop of \<open>heuristicScan\<close> after the given lines\<close>
  "scanState [] currentFile lineNumber = (currentFile, lineNumber)"
| "scanState (l # ls) currentFile lineNumber =
     (if startsWith l ''+++ b/''
      then scanState ls (trim (stringReplace l ''+++ b/'' [])) 0
      else if startsWith l ''@@''
      then (case stringMatch l rx_hunkStart of
              Some (m, c) \<Rightarrow>
                scanState ls currentFile
                  (parseDecimal (case capture c 1 of None \<Rightarrow> [] | Some d \<Rightarrow> d))
            | None \<Rightarrow> scanState ls currentFile lineNumber)
      else if startsWith l ''+'' \<and> \<not> startsWith l ''+++''
      then scanState ls currentFile (lineNumber + 1)
      else scanState ls currentFile lineNumber)"

section \<open>The safe transformations (autofix.ts)\<close>

definition rx_varToConst :: regex where
  "rx_varToConst = Regex (RCat [RWordB, RStr ''var'', RPlus (RIn [CSpace]),
      RGroup 1 (RPlus (RIn [CWord]))]) ''g''"

definition rx_removeConsole :: regex where
  "rx_removeConsole = Regex (RCat [RStr ''console.'',
      RGroup 1 (RAlt (RStr ''log'') (RAlt (RStr ''debug'') (RStr ''info''))),
      RStr ''('', RStar True (RNotIn [CChar CHR '')'']), RStr '')'',
      ROpt (RStr '';''), ROpt (RStr [nl])]) ''g''"

definition rx_addSemicolons :: regex where
  "rx_addSemicolons = Regex (RCat [RGroup 1 (RNotIn [CChar CHR '';'', CSpace]), RStr [nl]]) ''g''"

definition rx_quotesSingle :: regex where
  "rx_quotesSingle = Regex (RCat [RStr [dq],
      RGroup 1 (RCat [RStar True (RNotIn [CChar dq, CChar bsl]),
        RStar True (RGroup 2 (RCat [RStr [bsl], RAny, RStar True (RNotIn [CChar dq, CChar bsl])]))]),
      RStr [dq]]) ''g''"

definition rx_trimWhitespace :: regex where
  "rx_trimWhitespace = Regex (RCat [RPlus (RIn [CChar CHR '' '', CChar tab]), REol]) ''gm''"

definition rx_strictEquality :: regex where
  "rx_strictEquality = Regex (RCat [RGroup 1 (RNotIn [CChar CHR ''='', CChar CHR ''!'']),
      RStr ''=='', RGroup 2 (RNotIn [CChar CHR ''=''])]) ''g''"

definition varToConst :: "string \<Rightarrow> string" where
  "varToConst code = regexReplace code rx_varToConst ''const $1''"

definition removeConsole :: "string \<Rightarrow> string" where
  "removeConsole code = regexReplace code rx_removeConsole []"

definition addSemicolons :: "string \<Rightarrow> string" where
  "addSemicolons code = regexReplace code rx_addSemicolons (''$1;'' @ [nl])"

definition quotesSingle :: "string \<Rightarrow> string" where
  "quotesSingle code = regexReplace code rx_quotesSingle ([sq] @ ''$1'' @ [sq])"

definition trimWhitespace :: "string \<Rightarrow> string" where
  "trimWhitespace code = regexReplace code rx_trimWhitespace []"

definition strictEquality :: "string \<Rightarrow> string" where
  "strictEquality code = regexReplace code rx_strictEquality ''$1===$2''"

definition SAFE_AUTOFIX_PATTERNS :: "(string \<times> (string \<Rightarrow> string)) list" where
  "SAFE_AUTOFIX_PATTERNS =
     [(''var-to-const'', varToConst),
      (''remove-console'', removeConsole),
      (''add-semicolons'', addSemicolons),
      (''quotes-single'', quotesSingle),
      (''trim-whitespace'', trimWhitespace),
      (''strict-equality'', strictEquality)]"

text \<open>
  What the trailing-whitespace transformation computes, told directly: a blank (space
  or TAB) is dropped when what follows it, after the same treatment, is the end of the
  text or a line terminator.
\<close>

definition isBlank :: "char \<Rightarrow> bool" where
  "isBlank c = (c = CHR '' '' \<or> c = tab)"

fun atEol :: "string \<Rightarrow> bool" where
  "atEol [] = True"
| "atEol (c # s) = isLineTerminator c"

fun stripTrailing :: "string \<Rightarrow> string" where
  "stripTrailing [] = []"
| "stripTrailing (c # s) =
     (if isBlank c \<and> atEol (stripTrailing s) then stripTrailing s else c # stripTrailing s)"

section \<open>The host: errors, files and paths\<close>

datatype jserror = ENOENT | EISDIR | SyntaxError | TypeError | Error string

text \<open>
  The file system is a map from path texts to what is there.  \<open>Unreadable\<close> stands for
  everything that exists and cannot be read or written as a file (a directory, a file
  without permission).  Different path texts name different files.
\<close>

datatype fsnode = File string | Unreadable

type_synonym filesystem = "string \<Rightarrow> fsnode option"

definition existsSync :: "filesystem \<Rightarrow> string \<Rightarrow> bool" where
  "existsSync fs p = (fs p \<noteq> None)"

definition readFileSync :: "filesystem \<Rightarrow> string \<Rightarrow> jserror + string" where
  "readFileSync fs p =
     (case fs p of None \<Rightarrow> Inl ENOENT | Some Unreadable \<Rightarrow> Inl EISDIR | Some (File c) \<Rightarrow> Inr c)"

definition writeFileSync :: "filesystem \<Rightarrow> string \<Rightarrow> string \<Rightarrow> jserror + filesystem" where
  "writeFileSync fs p c =
     (case fs p of Some Unreadable \<Rightarrow> Inl EISDIR | _ \<Rightarrow> Inr (fs(p \<mapsto> File c)))"

text \<open>
  The path library, the working directory of the process, the JSON parser and the
  rendering of numbers as texts are the host's; the program is modelled for any of
  them.  \<open>json_parse\<close> is \<open>None\<close> where the host's parser raises a syntax error, and
  \<open>number_toString\<close> gives the text that the host prints for a number.
\<close>

record host =
  cwd :: string
  path_join :: "string list \<Rightarrow> string"
  path_dirname :: "string \<Rightarrow> string"
  path_isAbsolute :: "string \<Rightarrow> bool"
  path_relative :: "string \<Rightarrow> string \<Rightarrow> string"
  json_parse :: "string \<Rightarrow> jsval option"
  number_toString :: "string \<Rightarrow> string"

section \<open>The context resolver (contextResolver.ts)\<close>

record ContextFile =
  path :: string
  content :: string

fun pickLoop :: "filesystem \<Rightarrow> string list \<Rightarrow> ContextFile list \<Rightarrow> ContextFile list" where
  "pickLoop fs [] out = out"
| "pickLoop fs (f # files) out =
     (case readFileSync fs f of
        Inr c \<Rightarrow> pickLoop fs files (out @ [\<lparr> path = f, content = take 20000 c \<rparr>])
      | Inl e \<Rightarrow> pickLoop fs files out)"

definition pickContextFiles :: "filesystem \<Rightarrow> string list \<Rightarrow> int \<Rightarrow> ContextFile list" where
  \<comment> \<open>\<open>files.slice(0, limit)\<close>: a negative limit counts from the end\<close>
  "pickContextFiles fs files limit =
     pickLoop fs (if limit < 0 then take (length files - nat (- limit)) files
                  else take (nat limit) files) []"

abbreviation rx_space1 :: rx where
  "rx_space1 \<equiv> RPlus (RIn [CSpace])"

abbreviation rx_quote :: rx where
  "rx_quote \<equiv> RIn [CChar sq, CChar dq]"

abbreviation rx_relpath :: rx where
  \<comment> \<open>the group of a relative path: a dot and then characters other than quotes and LF\<close>
  "rx_relpath \<equiv> RGroup 1 (RCat [RStr ''.'', RPlus (RNotIn [CChar sq, CChar dq, CChar nl])])"

definition importRegexes :: "regex list" where
  "importRegexes =
    [Regex (RCat [RStr ''import'', rx_space1, RPlus (RNotIn [CChar sq, CChar dq, CChar nl]),
                  RStr ''from'', rx_space1, rx_quote, rx_relpath, rx_quote]) ''g'',
     Regex (RCat [RStr ''require('', RStar True (RIn [CSpace]), rx_quote, rx_relpath, rx_quote,
                  RStar True (RIn [CSpace]), RStr '')'']) ''g'',
     Regex (RCat [RStr ''export'', rx_space1, RStr ''*'', rx_space1, RStr ''from'', rx_space1,
                  rx_quote, rx_relpath, rx_quote]) ''g'',
     Regex (RCat [RStr ''from'', rx_space1, RStr ''.'', RPlus (RIn [CNonSpace]), rx_space1,
                  RStr ''import'']) ''g'',
     Regex (RCat [RStr ''import'', rx_space1, RStr ''.'', RPlus (RIn [CNonSpace])]) ''g'',
     Regex (RCat [RStr ''import'', rx_space1, rx_quote, rx_relpath, rx_quote]) ''g'',
     Regex (RCat [RStr ''import'', rx_space1,
                  RPlus (RGroup 1 (RCat [RPlus (RIn [CWord]), RStr ''.''])),
                  RPlus (RIn [CWord])]) ''g'',
     Regex (RCat [RStr ''#include'', rx_space1, rx_quote, rx_relpath, rx_quote]) ''g'',
     Regex (RCat [RStr ''require_once'', rx_space1, rx_quote, rx_relpath, rx_quote]) ''g'',
     Regex (RCat [RStr ''include'', rx_space1, rx_quote, rx_relpath, rx_quote]) ''g'',
     Regex (RCat [RStr ''require_relative'', rx_space1, rx_quote, rx_relpath, rx_quote]) ''g'',
     Regex (RCat [RStr ''use'', rx_space1, RStr ''crate::'']) ''g'',
     Regex (RCat [RStr ''mod'', rx_space1, RPlus (RIn [CWord])]) ''g'']"

definition firstGroups :: "(string \<times> captures) list \<Rightarrow> string list" where
  \<comment> \<open>\<open>if (m[1]) found.push(m[1])\<close>: the first group where it is set and not empty\<close>
  "firstGroups ms =
     concat (map (\<lambda>(m, c). case capture c 1 of None \<Rightarrow> [] | Some g \<Rightarrow> if g = [] then [] else [g]) ms)"

fun collectImports :: "regex list \<Rightarrow> string \<Rightarrow> string list \<Rightarrow> string list option" where
  "collectImports [] src found = Some found"
| "collectImports (re # res) src found =
     (case execAll re None src of
        None \<Rightarrow> None
      | Some ms \<Rightarrow> collectImports res src (found @ firstGroups ms))"

fun uniqueInOrder :: "'a list \<Rightarrow> 'a list \<Rightarrow> 'a list" where
  \<comment> \<open>\<open>Array.from(new Set(xs))\<close>: the first occurrence of each element, in order\<close>
  "uniqueInOrder acc [] = acc"
| "uniqueInOrder acc (x # xs) = uniqueInOrder (if x \<in> set acc then acc else acc @ [x]) xs"

definition parseRelativeImports :: "string \<Rightarrow> string list option" where
  "parseRelativeImports src =
     (case collectImports importRegexes src [] of
        None \<Rightarrow> None
      | Some found \<Rightarrow> Some (uniqueInOrder [] found))"

definition extensions :: "string list" where
  "extensions = [[], ''.ts'', ''.tsx'', ''.js'', ''.jsx'', ''.mjs'', ''.cjs'', ''.py'', ''.pyi'',
     ''.go'', ''.java'', ''.kt'', ''.kts'', ''.c'', ''.cpp'', ''.cc'', ''.cxx'', ''.h'', ''.hpp'',
     ''.php'', ''.rb'', ''.rs'', ''.swift'', ''.cs'', ''.vue'', ''.svelte'', ''.dart'', ''.scala'',
     ''.lua'', ''.r'', ''.R'']"

definition indexFiles :: "string list" where
  "indexFiles = [''index.ts'', ''index.tsx'', ''index.js'', ''index.jsx'', ''__init__.py'', ''mod.rs'']"

definition resolveImportPath :: "host \<Rightarrow> filesystem \<Rightarrow> string \<Rightarrow> string \<Rightarrow> string option" where
  "resolveImportPath h fs fromFile rel =
     (let baseDir = path_dirname h
            (if path_isAbsolute h fromFile then fromFile else path_join h [cwd h, fromFile]);
          candidates = map (\<lambda>ext. path_join h [baseDir, rel @ ext]) extensions
                     @ map (\<lambda>idx. path_join h [baseDir, rel, idx]) indexFiles
      in case filter (existsSync fs) candidates of
           [] \<Rightarrow> None
         | c # _ \<Rightarrow> Some (path_relative h (cwd h) c))"

type_synonym expansion = "ContextFile list \<times> ContextFile list \<times> string set"

fun addImports ::
  "host \<Rightarrow> filesystem \<Rightarrow> int \<Rightarrow> ContextFile \<Rightarrow> string list \<Rightarrow> expansion \<Rightarrow> expansion" where
  "addImports h fs maxFiles item [] st = st"
| "addImports h fs maxFiles item (imp # imps) (out, queue, seen) =
     (case resolveImportPath h fs (path item) imp of
        None \<Rightarrow> addImports h fs maxFiles item imps (out, queue, seen)
      | Some resolved \<Rightarrow>
          if resolved = [] then addImports h fs maxFiles item imps (out, queue, seen)
          else if resolved \<in> seen then addImports h fs maxFiles item imps (out, queue, seen)
          else (case readFileSync fs resolved of
                  Inl e \<Rightarrow> addImports h fs maxFiles item imps (out, queue, seen)
                | Inr c \<Rightarrow>
                    (let entry = \<lparr> path = resolved, content = take 20000 c \<rparr> in
                     if int (length (out @ [entry])) \<ge> maxFiles
                     then (out @ [entry], queue @ [entry], insert resolved seen)
                     else addImports h fs maxFiles item imps
                            (out @ [entry], queue @ [entry], insert resolved seen))))"

text \<open>
  What one pass of the inner loop does to the lists: the same entries are appended to
  the output and to the queue, and with room left at the start the budget is not
  passed.
\<close>

lemma addImports_appends:
  "addImports h fs maxFiles item imps (out, queue, seen) = (out', queue', seen') \<Longrightarrow>
   \<exists>added. out' = out @ added \<and> queue' = queue @ added
     \<and> (int (length out) < maxFiles \<longrightarrow> int (length out') \<le> maxFiles)"
proof (induction imps arbitrary: out queue seen)
  case Nil
  then show ?case by simp
next
  case (Cons imp imps)
  show ?case
  proof (cases "resolveImportPath h fs (path item) imp")
    case None
    with Cons.prems have "addImports h fs maxFiles item imps (out, queue, seen) = (out', queue', seen')"
      by simp
    from Cons.IH[OF this] show ?thesis .
  next
    case (Some resolved)
    show ?thesis
    proof (cases "resolved = [] \<or> resolved \<in> seen \<or> isl (readFileSync fs resolved)")
      case True
      with Some Cons.prems
      have "addImports h fs maxFiles item imps (out, queue, seen) = (out', queue', seen')"
        by (cases "readFileSync fs resolved") (auto split: if_splits)
      from Cons.IH[OF this] show ?thesis .
    next
      case False
      then obtain c where c: "readFileSync fs resolved = Inr c" by (cases "readFileSync fs resolved") auto
      define entry where "entry = \<lparr> path = resolved, content = take 20000 c \<rparr>"
      show ?thesis
      proof (cases "int (length (out @ [entry])) \<ge> maxFiles")
        case True
        with Some False c Cons.prems have "out' = out @ [entry]" "queue' = queue @ [entry]"
          by (simp_all add: entry_def Let_def)
        with True show ?thesis by auto
      next
        case full: False
        with Some False c Cons.prems
        have "addImports h fs maxFiles item imps (out @ [entry], queue @ [entry], insert resolved seen)
            = (out', queue', seen')"
          by (simp add: entry_def Let_def)
        from Cons.IH[OF this] obtain added where "out' = (out @ [entry]) @ added"
          "queue' = (queue @ [entry]) @ added"
          "int (length (out @ [entry])) < maxFiles \<longrightarrow> int (length out') \<le> maxFiles" by blast
        with full show ?thesis by (intro exI[of _ "entry # added"]) auto
      qed
    qed
  qed
qed

function expandLoop :: "host \<Rightarrow> filesystem \<Rightarrow> int \<Rightarrow> expansion \<Rightarrow> ContextFile list option" where
  "expandLoop h fs maxFiles (out, queue, seen) =
     (case queue of
        [] \<Rightarrow> Some out
      | item # rest \<Rightarrow>
          if \<not> int (length out) < maxFiles then Some out
          else (case parseRelativeImports (content item) of
                  None \<Rightarrow> None
                | Some imps \<Rightarrow>
                    expandLoop h fs maxFiles (addImports h fs maxFiles item imps (out, rest, seen))))"
  by pat_completeness auto
termination
proof (relation "measure (\<lambda>(h, fs, maxFiles, (out, queue, seen)).
          2 * nat (maxFiles - int (length out)) + length queue)")
  show "wf (measure (\<lambda>(h, fs, maxFiles, (out, queue, seen)).
          2 * nat (maxFiles - int (length out)) + length queue))" by simp
next
  fix h :: host and fs :: filesystem and maxFiles :: int and out queue :: "ContextFile list"
    and seen :: "string set" and item rest imps
  assume q: "queue = item # rest" and room: "\<not> \<not> int (length out) < maxFiles"
  obtain out' queue' seen' where
    st: "addImports h fs maxFiles item imps (out, rest, seen) = (out', queue', seen')"
    by (cases "addImports h fs maxFiles item imps (out, rest, seen)") auto
  from addImports_appends[OF st] room obtain added where
    "out' = out @ added" "queue' = rest @ added" "int (length out') \<le> maxFiles" by auto
  with q room st
  show "((h, fs, maxFiles, addImports h fs maxFiles item imps (out, rest, seen)),
         (h, fs, maxFiles, out, queue, seen))
        \<in> measure (\<lambda>(h, fs, maxFiles, (out, queue, seen)).
              2 * nat (maxFiles - int (length out)) + length queue)"
    by auto
qed

declare expandLoop.simps [simp del]

definition expandContextByImports ::
  "host \<Rightarrow> filesystem \<Rightarrow> ContextFile list \<Rightarrow> int \<Rightarrow> ContextFile list option" where
  "expandContextByImports h fs seed maxFiles =
     expandLoop h fs maxFiles (seed, seed, set (map path seed))"

subsection \<open>A POSIX path library\<close>

text \<open>
  The path functions of the host on a POSIX system, for the examples: \<open>normalize\<close>
  drops empty and \<open>.\<close> segments and resolves \<open>..\<close>; \<open>join\<close> normalizes the non-empty
  parts joined by slashes; \<open>relative\<close> resolves both paths against the working
  directory and walks from one to the other.
\<close>

fun joinWith :: "string \<Rightarrow> string list \<Rightarrow> string" where
  "joinWith sep [] = []"
| "joinWith sep [x] = x"
| "joinWith sep (x # xs) = x @ sep @ joinWith sep xs"

fun normSegments :: "bool \<Rightarrow> string list \<Rightarrow> string list \<Rightarrow> string list" where
  "normSegments allowAbove st [] = rev st"
| "normSegments allowAbove st (seg # segs) =
     (if seg = [] \<or> seg = ''.'' then normSegments allowAbove st segs
      else if seg = ''..'' then
        (case st of
           [] \<Rightarrow> normSegments allowAbove (if allowAbove then [''..''] else []) segs
         | prev # st' \<Rightarrow>
             if prev = ''..'' then normSegments allowAbove (seg # st) segs
             else normSegments allowAbove st' segs)
      else normSegments allowAbove (seg # st) segs)"

definition posix_isAbsolute :: "string \<Rightarrow> bool" where
  "posix_isAbsolute p = (case p of [] \<Rightarrow> False | c # _ \<Rightarrow> c = CHR ''/'')"

definition posix_normalize :: "string \<Rightarrow> string" where
  "posix_normalize p =
     (if p = [] then ''.''
      else (let isAbs = posix_isAbsolute p;
                trailing = (last p = CHR ''/'');
                body = joinWith ''/'' (normSegments (\<not> isAbs) [] (splitOn CHR ''/'' p))
            in if body = [] then (if isAbs then ''/'' else if trailing then ''./'' else ''.'')
               else (if isAbs then ''/'' else []) @ body @ (if trailing then ''/'' else [])))"

definition posix_join :: "string list \<Rightarrow> string" where
  "posix_join parts =
     (case filter (\<lambda>x. x \<noteq> []) parts of
        [] \<Rightarrow> ''.''
      | ps \<Rightarrow> posix_normalize (joinWith ''/'' ps))"

definition posix_dirname :: "string \<Rightarrow> string" where
  "posix_dirname p =
     (case p of
        [] \<Rightarrow> ''.''
      | c # t \<Rightarrow>
          (case dropWhile (\<lambda>x. x \<noteq> CHR ''/'') (dropWhile (\<lambda>x. x = CHR ''/'') (rev t)) of
             [] \<Rightarrow> (if c = CHR ''/'' then ''/'' else ''.'')
           | _ # front \<Rightarrow>
               if c = CHR ''/'' \<and> front = [] then ''//'' else take (Suc (length front)) p))"

definition posix_resolve :: "string \<Rightarrow> string \<Rightarrow> string list" where
  \<comment> \<open>the segments of the absolute path that \<open>p\<close> names in the directory \<open>dir\<close>\<close>
  "posix_resolve dir p =
     normSegments False [] (splitOn CHR ''/'' (if posix_isAbsolute p then p else dir @ ''/'' @ p))"

fun dropCommon :: "string list \<Rightarrow> string list \<Rightarrow> string list \<times> string list" where
  "dropCommon (x # xs) (y # ys) = (if x = y then dropCommon xs ys else (x # xs, y # ys))"
| "dropCommon xs ys = (xs, ys)"

definition posix_relative :: "string \<Rightarrow> string \<Rightarrow> string \<Rightarrow> string" where
  "posix_relative dir a b =
     (case dropCommon (posix_resolve dir a) (posix_resolve dir b) of
        (up, down) \<Rightarrow> joinWith ''/'' (map (\<lambda>_. ''..'') up @ down))"

text \<open>A pattern that starts with a non-empty literal text: no match of it is empty.\<close>

definition literalStart :: "regex \<Rightarrow> bool" where
  "literalStart re = (case pattern re of RSeq (RStr w) r \<Rightarrow> w \<noteq> [] | _ \<Rightarrow> False)"

subsection \<open>A JSON parser\<close>

text \<open>
  The grammar of JSON texts, for the examples: a lexer and a parser that keeps the
  open arrays and objects on a stack.  A number is kept as it is written.  An escape
  \<open>\uXXXX\<close> for a code unit of 256 or more has no character in the model and is
  refused.
\<close>

datatype token =
    TLBrace | TRBrace | TLBracket | TRBracket | TColon | TComma
  | TString string | TNumber string | TTrue | TFalse | TNull

definition controlChars :: "char list" where
  "controlChars = [CHR 0x00, CHR 0x01, CHR 0x02, CHR 0x03, CHR 0x04, CHR 0x05, CHR 0x06, CHR 0x07,
     CHR 0x08, CHR 0x09, CHR 0x0A, CHR 0x0B, CHR 0x0C, CHR 0x0D, CHR 0x0E, CHR 0x0F,
     CHR 0x10, CHR 0x11, CHR 0x12, CHR 0x13, CHR 0x14, CHR 0x15, CHR 0x16, CHR 0x17,
     CHR 0x18, CHR 0x19, CHR 0x1A, CHR 0x1B, CHR 0x1C, CHR 0x1D, CHR 0x1E, CHR 0x1F]"

definition hexValue :: "char \<Rightarrow> nat option" where
  "hexValue c = map_of (zip ''0123456789abcdefABCDEF''
     [0, 1, 2, 3, 4, 5, 6, 7, 8, 9, 10, 11, 12, 13, 14, 15, 10, 11, 12, 13, 14, 15]) c"

definition simpleEscape :: "char \<Rightarrow> char option" where
  "simpleEscape c = map_of [(dq, dq), (bsl, bsl), (CHR ''/'', CHR ''/''), (CHR ''b'', CHR 0x08),
     (CHR ''f'', CHR 0x0C), (CHR ''n'', nl), (CHR ''r'', cr), (CHR ''t'', tab)] c"

fun lexString :: "string \<Rightarrow> (string \<times> string) option" where
  \<comment> \<open>the text after an opening quote: the characters up to the closing quote, and the rest\<close>
  "lexString [] = None"
| "lexString [c] = (if c = dq then Some ([], []) else None)"
| "lexString (c # e # s) =
     (if c = dq then Some ([], e # s)
      else if c = bsl then
        (case simpleEscape e of
           Some x \<Rightarrow> (case lexString s of None \<Rightarrow> None | Some (w, rest) \<Rightarrow> Some (x # w, rest))
         | None \<Rightarrow>
             if e = CHR ''u'' then
               (case map hexValue (take 4 s) of
                  [Some a, Some b, Some h, Some l] \<Rightarrow>
                    if a = 0 \<and> b = 0
                    then (case lexString (drop 4 s) of
                            None \<Rightarrow> None
                          | Some (w, rest) \<Rightarrow> Some (char_of (16 * h + l) # w, rest))
                    else None
                | _ \<Rightarrow> None)
             else None)
      else if c \<in> set controlChars then None
      else (case lexString (e # s) of None \<Rightarrow> None | Some (w, rest) \<Rightarrow> Some (c # w, rest)))"

lemma lexString_shorter: "lexString s = Some (w, rest) \<Longrightarrow> length rest < length s"
  by (induction s arbitrary: w rest rule: lexString.induct)
     (fastforce split: if_splits option.splits list.splits)+

definition lexDigits :: "string \<Rightarrow> (string \<times> string) option" where
  \<comment> \<open>one digit or more\<close>
  "lexDigits s = (if takeWhile isDigit s = [] then None
                  else Some (takeWhile isDigit s, dropWhile isDigit s))"

definition lexNumber :: "string \<Rightarrow> (string \<times> string) option" where
  \<comment> \<open>an optional minus, the integer part, an optional fraction, an optional exponent\<close>
  "lexNumber s =
     (let (sign, s1) = (if startsWith s ''-'' \<and> s \<noteq> [] then (''-'', drop 1 s) else ([], s)) in
      case (if startsWith s1 ''0'' \<and> s1 \<noteq> [] then Some (''0'', drop 1 s1) else lexDigits s1) of
        None \<Rightarrow> None
      | Some (ip, s2) \<Rightarrow>
          (case (if startsWith s2 ''.'' \<and> s2 \<noteq> []
                 then (case lexDigits (drop 1 s2) of
                         None \<Rightarrow> None | Some (d, r) \<Rightarrow> Some (''.'' @ d, r))
                 else Some ([], s2)) of
             None \<Rightarrow> None
           | Some (fp, s3) \<Rightarrow>
               (case (case s3 of
                        [] \<Rightarrow> Some ([], s3)
                      | x # s4 \<Rightarrow>
                          if x = CHR ''e'' \<or> x = CHR ''E'' then
                            (let (es, s5) = (case s4 of
                                               [] \<Rightarrow> ([], s4)
                                             | y # s6 \<Rightarrow> if y = CHR ''+'' \<or> y = CHR ''-''
                                                         then ([y], s6) else ([], s4))
                             in case lexDigits s5 of
                                  None \<Rightarrow> None | Some (d, r) \<Rightarrow> Some (x # es @ d, r))
                          else Some ([], s3)) of
                  None \<Rightarrow> None
                | Some (ep, rest) \<Rightarrow> Some (sign @ ip @ fp @ ep, rest))))"

definition lexToken :: "string \<Rightarrow> (token \<times> string) option" where
  \<comment> \<open>the token at the start of a text that does not start with white space\<close>
  "lexToken s =
     (case s of
        [] \<Rightarrow> None
      | c # t \<Rightarrow>
          if c = CHR ''{'' then Some (TLBrace, t)
          else if c = CHR ''}'' then Some (TRBrace, t)
          else if c = CHR ''['' then Some (TLBracket, t)
          else if c = CHR '']'' then Some (TRBracket, t)
          else if c = CHR '':'' then Some (TColon, t)
          else if c = CHR '','' then Some (TComma, t)
          else if c = dq then (case lexString t of None \<Rightarrow> None | Some (w, r) \<Rightarrow> Some (TString w, r))
          else if startsWith s ''true'' then Some (TTrue, drop 4 s)
          else if startsWith s ''false'' then Some (TFalse, drop 5 s)
          else if startsWith s ''null'' then Some (TNull, drop 4 s)
          else (case lexNumber s of None \<Rightarrow> None | Some (n, r) \<Rightarrow> Some (TNumber n, r)))"

definition isJsonSpace :: "char \<Rightarrow> bool" where
  "isJsonSpace c = (c = CHR '' '' \<or> c = tab \<or> c = nl \<or> c = cr)"

lemma lexDigits_shorter: "lexDigits s = Some (d, r) \<Longrightarrow> length r < length s"
proof -
  assume a: "lexDigits s = Some (d, r)"
  then have d: "d = takeWhile isDigit s" and r: "r = dropWhile isDigit s" and ne: "takeWhile isDigit s \<noteq> []"
    by (auto simp: lexDigits_def split: if_splits)
  have "length (takeWhile isDigit s) + length (dropWhile isDigit s) = length s"
    by (metis length_append takeWhile_dropWhile_id)
  with ne r show ?thesis by (cases "takeWhile isDigit s") auto
qed

lemma lexDigits_le: "lexDigits s = Some (d, r) \<Longrightarrow> length r \<le> length s"
  by (drule lexDigits_shorter) simp

lemma lexNumber_shorter: "lexNumber s = Some (n, r) \<Longrightarrow> length r < length s"
proof -
  assume a: "lexNumber s = Some (n, r)"
  define s1 where "s1 = (if startsWith s ''-'' \<and> s \<noteq> [] then drop 1 s else s)"
  have s1: "length s1 \<le> length s" by (simp add: s1_def)
  from a obtain ip s2 where ip: "(if startsWith s1 ''0'' \<and> s1 \<noteq> [] then Some (''0'', drop 1 s1) else lexDigits s1) = Some (ip, s2)"
    by (auto simp: lexNumber_def s1_def Let_def split: option.splits if_splits prod.splits)
  then have s2: "length s2 < length s1"
    by (auto split: if_splits dest: lexDigits_shorter)
  from a ip obtain fp s3 where fp: "(if startsWith s2 ''.'' \<and> s2 \<noteq> []
                 then (case lexDigits (drop 1 s2) of
                         None \<Rightarrow> None | Some (d, r) \<Rightarrow> Some (''.'' @ d, r))
                 else Some ([], s2)) = Some (fp, s3)"
    by (auto simp: lexNumber_def s1_def Let_def split: option.splits if_splits prod.splits)
  then have s3: "length s3 \<le> length s2"
    by (auto split: if_splits option.splits dest!: lexDigits_le)
  from a ip fp obtain ep where ep: "(case s3 of
                        [] \<Rightarrow> Some ([], s3)
                      | x # s4 \<Rightarrow>
                          if x = CHR ''e'' \<or> x = CHR ''E'' then
                            (let (es, s5) = (case s4 of
                                               [] \<Rightarrow> ([], s4)
                                             | y # s6 \<Rightarrow> if y = CHR ''+'' \<or> y = CHR ''-''
                                                         then ([y], s6) else ([], s4))
                             in case lexDigits s5 of
                                  None \<Rightarrow> None | Some (d, r) \<Rightarrow> Some (x # es @ d, r))
                          else Some ([], s3)) = Some (ep, r)"
    by (auto simp: lexNumber_def s1_def Let_def split: option.splits if_splits prod.splits)
  then have "length r \<le> length s3"
    by (auto split: list.splits if_splits option.splits prod.splits dest!: lexDigits_le)
  with s1 s2 s3 show ?thesis by simp
qed

lemma lexToken_shorter: "lexToken s = Some (t, r) \<Longrightarrow> length r < length s"
  by (cases s)
     (auto simp: lexToken_def startsWith_def split: if_splits option.splits
           dest: lexString_shorter lexNumber_shorter)

function tokenize :: "string \<Rightarrow> token list option" where
  "tokenize s =
     (case dropWhile isJsonSpace s of
        [] \<Rightarrow> Some []
      | c # t \<Rightarrow>
          (case lexToken (c # t) of
             None \<Rightarrow> None
           | Some (tok, rest) \<Rightarrow>
               (case tokenize rest of None \<Rightarrow> None | Some toks \<Rightarrow> Some (tok # toks))))"
  by pat_completeness auto
termination
proof (relation "measure length")
  show "wf (measure length)" by simp
next
  fix s :: string and c t x tok rest
  assume d: "dropWhile isJsonSpace s = c # t" and l: "lexToken (c # t) = Some x" and x: "(tok, rest) = x"
  from l x have "length rest < length (c # t)" by (auto dest: lexToken_shorter)
  moreover have "length (dropWhile isJsonSpace s) \<le> length s" by (rule length_dropWhile_le)
  ultimately show "(rest, s) \<in> measure length" using d by simp
qed

declare tokenize.simps [simp del]

datatype frame = FArr "jsval list" | FObj "(string \<times> jsval) list" | FKey string

datatype expect = EValue | EValueOrClose | EKey | EKeyOrClose | EColon | EAfter | EDone jsval

fun feed :: "jsval \<Rightarrow> frame list \<Rightarrow> (frame list \<times> expect) option" where
  \<comment> \<open>a finished value goes to the array or to the member that is open\<close>
  "feed v [] = Some ([], EDone v)"
| "feed v (FArr es # st) = Some (FArr (v # es) # st, EAfter)"
| "feed v (FKey k # FObj ms # st) = Some (FObj ((k, v) # ms) # st, EAfter)"
| "feed v st = None"

fun startValue :: "frame list \<Rightarrow> token \<Rightarrow> (frame list \<times> expect) option" where
  "startValue st TLBracket = Some (FArr [] # st, EValueOrClose)"
| "startValue st TLBrace = Some (FObj [] # st, EKeyOrClose)"
| "startValue st (TString w) = feed (JString w) st"
| "startValue st (TNumber n) = feed (JNumber n) st"
| "startValue st TTrue = feed (JBool True) st"
| "startValue st TFalse = feed (JBool False) st"
| "startValue st TNull = feed JNull st"
| "startValue st t = None"

fun closeArray :: "frame list \<Rightarrow> (frame list \<times> expect) option" where
  "closeArray (FArr es # st) = feed (JArray (rev es)) st"
| "closeArray st = None"

fun closeObject :: "frame list \<Rightarrow> (frame list \<times> expect) option" where
  "closeObject (FObj ms # st) = feed (JObject (rev ms)) st"
| "closeObject st = None"

fun parseStep :: "frame list \<Rightarrow> expect \<Rightarrow> token \<Rightarrow> (frame list \<times> expect) option" where
  "parseStep st EValue t = startValue st t"
| "parseStep st EValueOrClose t = (if t = TRBracket then closeArray st else startValue st t)"
| "parseStep st EKey t = (case t of TString k \<Rightarrow> Some (FKey k # st, EColon) | _ \<Rightarrow> None)"
| "parseStep st EKeyOrClose t =
     (case t of TString k \<Rightarrow> Some (FKey k # st, EColon) | TRBrace \<Rightarrow> closeObject st | _ \<Rightarrow> None)"
| "parseStep st EColon t = (if t = TColon then Some (st, EValue) else None)"
| "parseStep st EAfter t =
     (case t of
        TComma \<Rightarrow> (case st of FArr es # r \<Rightarrow> Some (st, EValue)
                            | FObj ms # r \<Rightarrow> Some (st, EKey)
                            | _ \<Rightarrow> None)
      | TRBracket \<Rightarrow> closeArray st
      | TRBrace \<Rightarrow> closeObject st
      | _ \<Rightarrow> None)"
| "parseStep st (EDone v) t = None"

fun parseTokens :: "frame list \<Rightarrow> expect \<Rightarrow> token list \<Rightarrow> jsval option" where
  "parseTokens st e [] = (case e of EDone v \<Rightarrow> Some v | _ \<Rightarrow> None)"
| "parseTokens st e (t # ts) =
     (case parseStep st e t of None \<Rightarrow> None | Some (st', e') \<Rightarrow> parseTokens st' e' ts)"

definition jsonParse :: "string \<Rightarrow> jsval option" where
  "jsonParse s = (case tokenize s of None \<Rightarrow> None | Some ts \<Rightarrow> parseTokens [] EValue ts)"

definition posixHost :: "string \<Rightarrow> host" where
  \<comment> \<open>the host of the examples, with numbers printed as they are written\<close>
  "posixHost dir = \<lparr> cwd = dir, path_join = posix_join, path_dirname = posix_dirname,
     path_isAbsolute = posix_isAbsolute, path_relative = posix_relative dir,
     json_parse = jsonParse, number_toString = (\<lambda>n. n) \<rparr>"

section \<open>Parsing the answer of the remote analyzer (groq.ts)\<close>

text \<open>
  Reading a member of a value, for the names the program reads (no prototype of the
  host defines one of them): \<open>None\<close> is \<open>undefined\<close>.  Of members written twice the last
  one counts.
\<close>

definition lookupLast :: "(string \<times> jsval) list \<Rightarrow> string \<Rightarrow> jsval option" where
  "lookupLast ms k = map_of (rev ms) k"

fun getField :: "jsval \<Rightarrow> string \<Rightarrow> jserror + jsval option" where
  "getField JNull k = Inl TypeError"
| "getField (JObject ms) k = Inr (lookupLast ms k)"
| "getField v k = Inr None"

fun getIndex0 :: "jsval \<Rightarrow> jserror + jsval option" where
  \<comment> \<open>\<open>v[0]\<close>\<close>
  "getIndex0 JNull = Inl TypeError"
| "getIndex0 (JObject ms) = Inr (lookupLast ms ''0'')"
| "getIndex0 (JArray xs) = Inr (case xs of [] \<Rightarrow> None | x # _ \<Rightarrow> Some x)"
| "getIndex0 (JString s) = Inr (case s of [] \<Rightarrow> None | c # _ \<Rightarrow> Some (JString [c]))"
| "getIndex0 v = Inr None"

fun sequenceSum :: "('e + 'a) list \<Rightarrow> 'e + 'a list" where
  \<comment> \<open>the results in order, or the first error\<close>
  "sequenceSum [] = Inr []"
| "sequenceSum (Inl e # xs) = Inl e"
| "sequenceSum (Inr x # xs) = (case sequenceSum xs of Inl e \<Rightarrow> Inl e | Inr ys \<Rightarrow> Inr (x # ys))"

fun toStringJs :: "host \<Rightarrow> jsval \<Rightarrow> jserror + string" where
  \<comment> \<open>\<open>String(v)\<close>: an array joins its elements with commas (nothing for \<open>null\<close>); an object
      that has a member \<open>toString\<close> of its own cannot be converted\<close>
  "toStringJs h JNull = Inr ''null''"
| "toStringJs h (JBool b) = Inr (if b then ''true'' else ''false'')"
| "toStringJs h (JNumber n) = Inr (number_toString h n)"
| "toStringJs h (JString s) = Inr s"
| "toStringJs h (JArray xs) =
     (case sequenceSum (map (\<lambda>x. if x = JNull then Inr [] else toStringJs h x) xs) of
        Inl e \<Rightarrow> Inl e
      | Inr ws \<Rightarrow> Inr (joinWith '','' ws))"
| "toStringJs h (JObject ms) =
     (if lookupLast ms ''toString'' \<noteq> None then Inl TypeError else Inr ''[object Object]'')"

definition orDefault :: "jsval option \<Rightarrow> jsval \<Rightarrow> jsval" where
  \<comment> \<open>\<open>v ?? d\<close>\<close>
  "orDefault v d = (case v of None \<Rightarrow> d | Some JNull \<Rightarrow> d | Some x \<Rightarrow> x)"

definition normalizeOne :: "host \<Rightarrow> jsval \<Rightarrow> jserror + ReviewIssue" where
  \<comment> \<open>the callback of \<open>map\<close> in \<open>normalizeIssues\<close>\<close>
  "normalizeOne h it =
     (case getField it ''file'' of Inl e \<Rightarrow> Inl e | Inr f \<Rightarrow>
      case toStringJs h (orDefault f (JString [])) of Inl e \<Rightarrow> Inl e | Inr fs \<Rightarrow>
      case getField it ''problem'' of Inl e \<Rightarrow> Inl e | Inr p \<Rightarrow>
      case toStringJs h (orDefault p (JString [])) of Inl e \<Rightarrow> Inl e | Inr ps \<Rightarrow>
      case getField it ''fix'' of Inl e \<Rightarrow> Inl e | Inr x \<Rightarrow>
      case toStringJs h (orDefault x (JString [])) of Inl e \<Rightarrow> Inl e | Inr xs \<Rightarrow>
      case getField it ''severity'' of Inl e \<Rightarrow> Inl e | Inr sv \<Rightarrow>
        Inr \<lparr> issue_file = fs, problem = ps, issue_fix = xs,
              severity = Some (orDefault sv (JString ''warning'')),
              line = None, snippet = None, autoFixable = None, fixedCode = None \<rparr>)"

definition normalizeIssues :: "host \<Rightarrow> jsval list \<Rightarrow> jserror + ReviewIssue list" where
  "normalizeIssues h arr =
     (case sequenceSum (map (normalizeOne h) arr) of
        Inl e \<Rightarrow> Inl e
      | Inr its \<Rightarrow>
          Inr (filter (\<lambda>it. issue_file it \<noteq> [] \<and> problem it \<noteq> [] \<and> issue_fix it \<noteq> []) its))"

definition rx_jsonBlock :: regex where
  \<comment> \<open>an opening bracket, as few characters as possible, a closing bracket\<close>
  "rx_jsonBlock = Regex (RCat [RStr ''['', RGroup 1 (RStar False (RIn [CSpace, CNonSpace])),
      RStr '']'']) []"

definition parseArray :: "host \<Rightarrow> jsval \<Rightarrow> ReviewIssue list option" where
  \<comment> \<open>the body of both \<open>try\<close> blocks: \<open>None\<close> where it throws or the value is not an array\<close>
  "parseArray h text =
     (case toStringJs h text of
        Inl e \<Rightarrow> None
      | Inr s \<Rightarrow>
          (case json_parse h s of
             Some (JArray arr) \<Rightarrow> (case normalizeIssues h arr of Inl e \<Rightarrow> None | Inr its \<Rightarrow> Some its)
           | _ \<Rightarrow> None))"

definition safeParseIssues :: "host \<Rightarrow> jsval \<Rightarrow> jserror + ReviewIssue list" where
  "safeParseIssues h text =
     (case parseArray h text of
        Some its \<Rightarrow> Inr its
      | None \<Rightarrow>
          (case text of
             JString s \<Rightarrow>
               (case stringMatch s rx_jsonBlock of
                  None \<Rightarrow> Inr []
                | Some (m, c) \<Rightarrow>
                    (case parseArray h (JString m) of Some its \<Rightarrow> Inr its | None \<Rightarrow> Inr []))
           | _ \<Rightarrow> Inl TypeError))"

section \<open>The remote analysis with its fallback (groq.ts)\<close>

text \<open>
  What the network call comes to: it fails, or it gives a response with its \<open>ok\<close>
  flag, its status and its body (\<open>None\<close> where the body cannot be read).
\<close>

datatype fetched = FetchFails | Response bool nat "string option"

definition optChain :: "(jsval \<Rightarrow> jserror + jsval option) \<Rightarrow> jsval option \<Rightarrow> jsval option" where
  \<comment> \<open>one step \<open>?.\<close> of an optional chain\<close>
  "optChain get v =
     (case v of None \<Rightarrow> None | Some JNull \<Rightarrow> None
      | Some x \<Rightarrow> (case get x of Inl e \<Rightarrow> None | Inr r \<Rightarrow> r))"

definition messageContent :: "jsval \<Rightarrow> jsval" where
  \<comment> \<open>\<open>data?.choices?.[0]?.message?.content ?? "[]"\<close>\<close>
  "messageContent data =
     orDefault (optChain (\<lambda>v. getField v ''content'')
                 (optChain (\<lambda>v. getField v ''message'')
                   (optChain getIndex0
                     (optChain (\<lambda>v. getField v ''choices'') (Some data)))))
               (JString ''[]'')"

definition remoteIssues :: "host \<Rightarrow> fetched \<Rightarrow> jserror + ReviewIssue list" where
  \<comment> \<open>the \<open>try\<close> block up to the issues read from the answer\<close>
  "remoteIssues h outcome =
     (case outcome of
        FetchFails \<Rightarrow> Inl (Error ''fetch failed'')
      | Response ok status body \<Rightarrow>
          if \<not> ok then Inl (Error ''Groq API error'')
          else (case body of
                  None \<Rightarrow> Inl (Error ''body'')
                | Some b \<Rightarrow>
                    (case json_parse h b of
                       None \<Rightarrow> Inl SyntaxError
                     | Some data \<Rightarrow> safeParseIssues h (messageContent data))))"

definition analyzeWithGroq ::
  "host \<Rightarrow> string option \<Rightarrow> fetched \<Rightarrow> string \<Rightarrow> (string \<times> string) list \<Rightarrow> jserror + ReviewIssue list" where
  "analyzeWithGroq h apiKey outcome diff contextFiles =
     (if apiKey = None \<or> apiKey = Some []
      then Inl (Error ''Missing GROQ_API_KEY in environment. Set it in .env'')
      else (case remoteIssues h outcome of
              Inl err \<Rightarrow> Inr (heuristicScan diff contextFiles)
            | Inr issues \<Rightarrow>
                Inr (if issues \<noteq> [] then issues else heuristicScan diff contextFiles)))"

section \<open>Applying the fixes (autofix.ts)\<close>

definition safePatterns :: "regex list" where
  \<comment> \<open>the allow-list of \<open>canAutoFix\<close>\<close>
  "safePatterns =
     [Regex (RCat [RStr ''var'', RPlus (RIn [CSpace]), RPlus (RIn [CWord])]) ''i'',
      Regex (RCat [RStr ''console.'', RGroup 1 (RAlt (RStr ''log'') (RAlt (RStr ''debug'') (RStr ''info'')))]) ''i'',
      Regex (RCat [RStr ''trailing'', RPlus (RIn [CSpace]), RStr ''whitespace'']) ''i'',
      Regex (RCat [RStr ''use'', RPlus (RIn [CSpace]), RStr ''const/let'']) ''i'',
      Regex (RCat [RStr ''strict'', RPlus (RIn [CSpace]), RStr ''equality'']) ''i'',
      Regex (RCat [RStr ''missing'', RPlus (RIn [CSpace]), RStr ''semicolon'']) ''i'']"

definition canAutoFix :: "ReviewIssue \<Rightarrow> bool" where
  "canAutoFix issue = list_ex (\<lambda>re. regexTest re (toLowerCase (problem issue))) safePatterns"

definition rx_problemVar :: regex where
  "rx_problemVar = Regex (RCat [RStr ''var'', RPlus (RIn [CSpace])]) []"

definition rx_problemConsole :: regex where
  "rx_problemConsole = Regex (RCat [RStr ''console.'',
      RGroup 1 (RAlt (RStr ''log'') (RAlt (RStr ''debug'') (RStr ''info'')))]) []"

definition rx_problemWhitespace :: regex where
  "rx_problemWhitespace = Regex (RCat [RStr ''trailing'', RPlus (RIn [CSpace]), RStr ''whitespace'']) []"

definition rx_problemEquality :: regex where
  "rx_problemEquality = Regex (RAlt (RCat [RStr ''strict'', RPlus (RIn [CSpace]), RStr ''equality''])
      (RCat [RStr ''=='', RPlus (RIn [CSpace]), RStr ''to'', RPlus (RIn [CSpace]), RStr ''==='']))
      []"

definition patternFix :: "string \<Rightarrow> ReviewIssue \<Rightarrow> string" where
  \<comment> \<open>the pattern-based fixes of \<open>applyIssueFix\<close>\<close>
  "patternFix contents issue =
     (let problem_lc = toLowerCase (problem issue) in
      if regexTest rx_problemVar problem_lc then varToConst contents
      else if regexTest rx_problemConsole problem_lc then removeConsole contents
      else if regexTest rx_problemWhitespace problem_lc then trimWhitespace contents
      else if regexTest rx_problemEquality problem_lc then strictEquality contents
      else contents)"

definition truthy :: "string option \<Rightarrow> bool" where
  \<comment> \<open>a text that is there and not empty\<close>
  "truthy v = (case v of None \<Rightarrow> False | Some s \<Rightarrow> s \<noteq> [])"

definition applyIssueFix :: "string \<Rightarrow> ReviewIssue \<Rightarrow> string" where
  "applyIssueFix contents issue =
     (if truthy (fixedCode issue) \<and> truthy (snippet issue)
      then stringReplace contents (case snippet issue of None \<Rightarrow> [] | Some s \<Rightarrow> s)
             (case fixedCode issue of None \<Rightarrow> [] | Some f \<Rightarrow> f)
      else patternFix contents issue)"

definition objectPrototypeNames :: "string list" where
  \<comment> \<open>the names every object of the host inherits\<close>
  "objectPrototypeNames = [''constructor'', ''__defineGetter__'', ''__defineSetter__'',
     ''hasOwnProperty'', ''__lookupGetter__'', ''__lookupSetter__'', ''isPrototypeOf'',
     ''propertyIsEnumerable'', ''toString'', ''valueOf'', ''__proto__'', ''toLocaleString'']"

fun groupLoop ::
  "ReviewIssue list \<Rightarrow> (string \<times> ReviewIssue list) list \<Rightarrow> jserror + (string \<times> ReviewIssue list) list" where
  \<comment> \<open>the loop of \<open>groupByFile\<close>: an inherited name is found where a list is expected\<close>
  "groupLoop [] grouped = Inr grouped"
| "groupLoop (issue # issues) grouped =
     (if issue_file issue \<in> set objectPrototypeNames then Inl TypeError
      else if map_of grouped (issue_file issue) = None
      then groupLoop issues (grouped @ [(issue_file issue, [issue])])
      else groupLoop issues
             (map (\<lambda>(k, v). if k = issue_file issue then (k, v @ [issue]) else (k, v)) grouped))"

definition groupByFile :: "ReviewIssue list \<Rightarrow> jserror + (string \<times> ReviewIssue list) list" where
  "groupByFile issues = groupLoop issues []"

definition isArrayIndex :: "string \<Rightarrow> bool" where
  \<comment> \<open>a key that is the decimal text of an integer from 0 to 4294967294\<close>
  "isArrayIndex k =
     (k \<noteq> [] \<and> list_all isDigit k \<and> (k = ''0'' \<or> hd k \<noteq> CHR ''0'')
      \<and> length k \<le> 10 \<and> parseDecimal k \<le> 4294967294)"

definition objectEntries :: "(string \<times> 'a) list \<Rightarrow> (string \<times> 'a) list" where
  \<comment> \<open>\<open>Object.entries\<close>: integer keys first in rising order, then the rest as inserted\<close>
  "objectEntries kvs =
     sort_key (\<lambda>kv. parseDecimal (fst kv)) (filter (\<lambda>kv. isArrayIndex (fst kv)) kvs)
     @ filter (\<lambda>kv. \<not> isArrayIndex (fst kv)) kvs"

record AutoFixResult =
  result_file :: string
  fixesApplied :: nat
  result_issues :: "ReviewIssue list"

record fixOptions =
  dryRun :: bool
  backup :: bool

fun fixLoop :: "ReviewIssue list \<Rightarrow> string \<Rightarrow> nat \<Rightarrow> string \<times> nat" where
  \<comment> \<open>the loop over the issues of one file: the new text and the count of fixes\<close>
  "fixLoop [] contents fixCount = (contents, fixCount)"
| "fixLoop (issue # issues) contents fixCount =
     (let fixed = applyIssueFix contents issue in
      if fixed \<noteq> contents then fixLoop issues fixed (fixCount + 1)
      else fixLoop issues contents fixCount)"

definition backupSuffix :: string where
  "backupSuffix = ''.prefl-backup''"

definition fixFile ::
  "host \<Rightarrow> fixOptions \<Rightarrow> filesystem \<Rightarrow> string \<times> ReviewIssue list
     \<Rightarrow> (jserror + AutoFixResult option) \<times> filesystem" where
  \<comment> \<open>the body of the loop over the files: the result for the file, if it has one\<close>
  "fixFile h options fs entry =
     (let filePath = fst entry;
          autoFixableIssues = filter canAutoFix (snd entry) in
      if autoFixableIssues = [] then (Inr None, fs)
      else (let fullPath = path_join h [cwd h, filePath] in
        if \<not> existsSync fs fullPath then (Inr None, fs)
        else (case readFileSync fs fullPath of
                Inl e \<Rightarrow> (Inl e, fs)
              | Inr originalContent \<Rightarrow>
                  (case fixLoop autoFixableIssues originalContent 0 of
                     (contents, fixCount) \<Rightarrow>
                       if \<not> fixCount > 0 then (Inr None, fs)
                       else (case (if backup options
                                   then writeFileSync fs (fullPath @ backupSuffix) originalContent
                                   else Inr fs) of
                               Inl e \<Rightarrow> (Inl e, fs)
                             | Inr fs1 \<Rightarrow>
                                 (case (if \<not> dryRun options
                                        then writeFileSync fs1 fullPath contents
                                        else Inr fs1) of
                                    Inl e \<Rightarrow> (Inl e, fs1)
                                  | Inr fs2 \<Rightarrow>
                                      (Inr (Some \<lparr> result_file = filePath, fixesApplied = fixCount,
                                                     result_issues = autoFixableIssues \<rparr>), fs2)))))))"

fun fixFiles ::
  "host \<Rightarrow> fixOptions \<Rightarrow> (string \<times> ReviewIssue list) list \<Rightarrow> AutoFixResult list \<Rightarrow> filesystem
     \<Rightarrow> (jserror + AutoFixResult list) \<times> filesystem" where
  "fixFiles h options [] results fs = (Inr results, fs)"
| "fixFiles h options (entry # entries) results fs =
     (case fixFile h options fs entry of
        (Inl e, fs') \<Rightarrow> (Inl e, fs')
      | (Inr None, fs') \<Rightarrow> fixFiles h options entries results fs'
      | (Inr (Some r), fs') \<Rightarrow> fixFiles h options entries (results @ [r]) fs')"

definition applyAutoFixes ::
  "host \<Rightarrow> ReviewIssue list \<Rightarrow> fixOptions \<Rightarrow> filesystem
     \<Rightarrow> (jserror + AutoFixResult list) \<times> filesystem" where
  "applyAutoFixes h issues options fs =
     (case groupByFile issues of
        Inl e \<Rightarrow> (Inl e, fs)
      | Inr fileIssues \<Rightarrow> fixFiles h options (objectEntries fileIssues) [] fs)"

definition targetPath :: "host \<Rightarrow> string \<Rightarrow> string" where
  \<comment> \<open>the full path of the file that a fix is applied to\<close>
  "targetPath h filePath = path_join h [cwd h, filePath]"

section \<open>Example inputs\<close>

definition quoted :: "string \<Rightarrow> string" where
  "quoted s = [dq] @ s @ [dq]"

definition exampleHost :: host where
  "exampleHost = posixHost ''/w''"

definition exampleArray :: string where
  \<comment> \<open>a JSON array of one issue, which has an array inside\<close>
  "exampleArray = ''[{'' @ quoted ''file'' @ '':'' @ quoted ''a.ts'' @ '',''
     @ quoted ''problem'' @ '':'' @ quoted ''Uses var instead of const'' @ '',''
     @ quoted ''fix'' @ '':'' @ quoted ''use const'' @ '',''
     @ quoted ''related'' @ '':['' @ quoted ''b.ts'' @ '']}]''"

definition exampleIssue :: ReviewIssue where
  "exampleIssue = \<lparr> issue_file = ''a.ts'', problem = ''Uses var instead of const'',
     issue_fix = ''use const'', severity = Some (JString ''warning''), line = None,
     snippet = None, autoFixable = None, fixedCode = None \<rparr>"

definition exampleEmptyAnswer :: string where
  \<comment> \<open>the body of a response whose message is the empty array\<close>
  "exampleEmptyAnswer = ''{'' @ quoted ''choices'' @ '':[{'' @ quoted ''message'' @ '':{''
     @ quoted ''content'' @ '':'' @ quoted ''[]'' @ ''}}]}''"

definition exampleDiff :: string where
  "exampleDiff = ''+++ b/src/a.js'' @ [nl] @ ''@@ -0,0 +1,1 @@'' @ [nl] @ ''+eval(a)''"

definition varIssue :: "string \<Rightarrow> ReviewIssue" where
  "varIssue f = \<lparr> issue_file = f, problem = ''Uses var instead of const'',
     issue_fix = ''use const'', severity = Some (JString ''warning''), line = None,
     snippet = None, autoFixable = None, fixedCode = None \<rparr>"

definition exampleFiles :: filesystem where
  "exampleFiles = [''/w/a.js'' \<mapsto> File ''var x = 1;'',
                   ''/w/a.js.prefl-backup'' \<mapsto> File ''var y = 2;'']"

section \<open>Facts about matching\<close>

lemma clearCaptures_Nil [simp]: "clearCaptures [] c = c"
  by (simp add: clearCaptures_def)

lemma lastOr_Cons: "lastOr p (ch # w) = lastOr (Some ch) w"
  by (simp add: lastOr_def)

lemma lastOr_Nil [simp]: "lastOr p [] = p"
  by (simp add: lastOr_def)

lemma lastOr_append: "lastOr p (u @ v) = lastOr (lastOr p u) v"
  by (simp add: lastOr_def)

lemma rxm_RStr_app: "rxm ic ml (RStr w) (p, w @ rest, c) = [(lastOr p w, rest, c)]"
  by simp

lemma rxm_RSeq_I:
  "x \<in> set (rxm ic ml a st) \<Longrightarrow> y \<in> set (rxm ic ml b x) \<Longrightarrow> y \<in> set (rxm ic ml (RSeq a b) st)"
  by auto

lemma rxm_RAlt_I1: "y \<in> set (rxm ic ml a st) \<Longrightarrow> y \<in> set (rxm ic ml (RAlt a b) st)"
  by simp

lemma rxm_RAlt_I2: "y \<in> set (rxm ic ml b st) \<Longrightarrow> y \<in> set (rxm ic ml (RAlt a b) st)"
  by simp

lemma rxm_RGroup_I:
  "(p', s', c') \<in> set (rxm ic ml r (p, s, c)) \<Longrightarrow>
   (p', s', setCapture n (take (length s - length s') s) c') \<in> set (rxm ic ml (RGroup n r) (p, s, c))"
  by force

lemma rxm_RSet_I:
  "list_ex (inItem ic ch) items \<noteq> neg \<Longrightarrow>
   rxm ic ml (RSet neg items) (p, ch # rest, c) = [(Some ch, rest, c)]"
  by simp

text \<open>A starred character class can stop after any run of characters of the class.\<close>

lemma rxm_star_set_I:
  "list_all (\<lambda>ch. list_ex (inItem ic ch) items \<noteq> neg) w \<Longrightarrow>
   (lastOr p w, rest, c) \<in> set (rxm ic ml (RStar g (RSet neg items)) (p, w @ rest, c))"
proof (induction w arbitrary: p)
  case Nil
  then show ?case by (simp add: Let_def)
next
  case (Cons ch w)
  then have ch: "list_ex (inItem ic ch) items \<noteq> neg"
    and rest: "list_all (\<lambda>ch. list_ex (inItem ic ch) items \<noteq> neg) w" by simp_all
  from Cons.IH[OF rest, of "Some ch"]
  have "(lastOr (Some ch) w, rest, c) \<in> set (rxm ic ml (RStar g (RSet neg items)) (Some ch, w @ rest, c))" .
  with ch show ?case
    by (cases g) (simp_all add: Let_def lastOr_Cons)
qed

text \<open>The search finds a match whenever the pattern matches at some position.\<close>

lemma rxSearch_complete:
  "rxm ic ml r (lastOr p pre, s, []) \<noteq> [] \<Longrightarrow> rxSearch ic ml r p (pre @ s) \<noteq> None"
proof (induction pre arbitrary: p)
  case Nil
  then show ?case by (cases s) (auto split: list.splits)
next
  case (Cons ch pre)
  from Cons.prems have "rxm ic ml r (lastOr (Some ch) pre, s, []) \<noteq> []" by (simp add: lastOr_Cons)
  from Cons.IH[OF this] show ?case by (auto split: list.splits option.splits)
qed

lemma includesStr_app: "includesStr (a @ w @ b) w"
proof (induction a)
  case Nil
  have "startsWith (w @ b) w" by (simp add: startsWith_def)
  then show ?case by (cases "w @ b") auto
next
  case (Cons x a)
  then show ?case by simp
qed

lemma lookupChar_cases: "lookupChar t c = c \<or> lookupChar t c \<in> snd ` set t"
  by (induction t c rule: lookupChar.induct) auto

lemma lookupChar_id: "x \<notin> fst ` set t \<Longrightarrow> lookupChar t x = x"
  by (induction t x rule: lookupChar.induct) auto

text \<open>A character that is no letter is matched, with or without the \<open>i\<close> flag, by itself only.\<close>

lemma canonicalize_eq_iff:
  assumes "x \<notin> fst ` set lowerUpperPairs" and "x \<notin> snd ` set lowerUpperPairs"
  shows "(canonicalize ic ch = canonicalize ic x) = (ch = x)"
proof (cases ic)
  case True
  from assms(1) have x: "lookupChar lowerUpperPairs x = x" by (rule lookupChar_id)
  from lookupChar_cases[of lowerUpperPairs ch] assms(2)
  have "lookupChar lowerUpperPairs ch = x \<Longrightarrow> ch = x" by auto
  with x True show ?thesis by (auto simp: canonicalize_def)
next
  case False
  then show ?thesis by (simp add: canonicalize_def)
qed

lemma rxm_RStr_self: "(lastOr p w, rest, c) \<in> set (rxm ic ml (RStr w) (p, w @ rest, c))"
  by (simp only: rxm_RStr_app list.set insert_iff simp_thms)

lemma rxm_REmpty_I: "st \<in> set (rxm ic ml REmpty st)"
  by simp

lemma api_key_match:
  assumes "mid \<in> {''_'', ''-'', []}"
  shows "(lastOr p (''api'' @ mid @ ''key''), rest, c) \<in> set (rxm True False
     (RCat [RStr ''api'', ROpt (RIn [CChar CHR ''_'', CChar CHR ''-'']), RStr ''key''])
     (p, (''api'' @ mid @ ''key'') @ rest, c))"
proof -
  have a: "(lastOr p ''api'', mid @ ''key'' @ rest, c)
      \<in> set (rxm True False (RStr ''api'') (p, ''api'' @ mid @ ''key'' @ rest, c))"
    by (rule rxm_RStr_self)
  have b: "(lastOr (lastOr p ''api'') mid, ''key'' @ rest, c)
      \<in> set (rxm True False (ROpt (RIn [CChar CHR ''_'', CChar CHR ''-'']))
            (lastOr p ''api'', mid @ ''key'' @ rest, c))"
    using assms by (auto simp: lastOr_def canonicalize_def lowerUpperPairs_def)
  have k: "(lastOr (lastOr (lastOr p ''api'') mid) ''key'', rest, c)
      \<in> set (rxm True False (RStr ''key'') (lastOr (lastOr p ''api'') mid, ''key'' @ rest, c))"
    by (rule rxm_RStr_self)
  have "(lastOr (lastOr (lastOr p ''api'') mid) ''key'', rest, c)
      \<in> set (rxm True False (RSeq (RStr ''api'')
            (RSeq (ROpt (RIn [CChar CHR ''_'', CChar CHR ''-''])) (RStr ''key'')))
            (p, ''api'' @ mid @ ''key'' @ rest, c))"
    by (rule rxm_RSeq_I[OF a rxm_RSeq_I[OF b k]])
  then show ?thesis by (simp only: RCat.simps lastOr_append append_assoc)
qed


lemma secret_name_match:
  assumes "kw \<in> {''password'', ''secret'', ''api_key'', ''api-key'', ''apikey'', ''token''}"
  shows "(lastOr p kw, rest, c) \<in> set (rxm True False
     (RAlt (RStr ''password'') (RAlt (RStr ''secret'')
        (RAlt (RCat [RStr ''api'', ROpt (RIn [CChar CHR ''_'', CChar CHR ''-'']), RStr ''key''])
              (RStr ''token'')))) (p, kw @ rest, c))"
proof -
  consider "kw = ''password''" | "kw = ''secret''" | "kw = ''token''"
    | mid where "kw = ''api'' @ mid @ ''key''" "mid \<in> {''_'', ''-'', []}"
    using assms by auto
  then show ?thesis
  proof cases
    case 1
    show ?thesis unfolding 1 by (rule rxm_RAlt_I1) (rule rxm_RStr_self)
  next
    case 2
    show ?thesis unfolding 2 by (rule rxm_RAlt_I2, rule rxm_RAlt_I1) (rule rxm_RStr_self)
  next
    case 3
    show ?thesis unfolding 3
      by (rule rxm_RAlt_I2, rule rxm_RAlt_I2, rule rxm_RAlt_I2) (rule rxm_RStr_self)
  next
    case 4
    show ?thesis unfolding 4(1)
      by (rule rxm_RAlt_I2, rule rxm_RAlt_I2, rule rxm_RAlt_I1) (rule api_key_match[OF 4(2)])
  qed
qed

lemma quote_item: "list_ex (inItem ic ch) [CChar sq, CChar dq] = (ch = sq \<or> ch = dq)"
proof -
  have "sq \<notin> fst ` set lowerUpperPairs" "sq \<notin> snd ` set lowerUpperPairs"
    "dq \<notin> fst ` set lowerUpperPairs" "dq \<notin> snd ` set lowerUpperPairs"
    by (simp_all add: lowerUpperPairs_def)
  then show ?thesis by (simp add: canonicalize_eq_iff)
qed

lemma space_item: "list_ex (inItem ic ch) [CSpace] = isWhiteSpace ch"
  by simp

lemma in_set_nonempty: "x \<in> set l \<Longrightarrow> l \<noteq> []"
  by auto

lemma hardcodedSecret_test:
  assumes kw: "kw \<in> {''password'', ''secret'', ''api_key'', ''api-key'', ''apikey'', ''token''}"
    and ws1: "list_all isWhiteSpace ws1" and ws2: "list_all isWhiteSpace ws2"
    and q1: "q1 = sq \<or> q1 = dq" and q2: "q2 = sq \<or> q2 = dq"
    and body: "body \<noteq> []" "sq \<notin> set body" "dq \<notin> set body"
  shows "regexTest rx_hardcodedSecret
           (pre @ kw @ ws1 @ ''='' @ ws2 @ [q1] @ body @ [q2] @ post)"
proof -
  let ?S = "RStar True (RIn [CSpace])"
  let ?Q = "RIn [CChar sq, CChar dq]"
  let ?N = "RNotIn [CChar sq, CChar dq]"
  let ?G = "RGroup 1 (RAlt (RStr ''password'') (RAlt (RStr ''secret'')
        (RAlt (RCat [RStr ''api'', ROpt (RIn [CChar CHR ''_'', CChar CHR ''-'']), RStr ''key''])
              (RStr ''token''))))"
  define p0 where "p0 = lastOr None pre"
  define r7 where "r7 = post"
  define r6 where "r6 = q2 # r7"
  define r5 where "r5 = body @ r6"
  define r4 where "r4 = q1 # r5"
  define r3 where "r3 = ws2 @ r4"
  define r2 where "r2 = ''='' @ r3"
  define r1 where "r1 = ws1 @ r2"
  define r0 where "r0 = kw @ r1"
  from body(1) obtain b bs where b: "body = b # bs" by (cases body) auto
  have "\<exists>c1. (lastOr p0 kw, r1, c1) \<in> set (rxm True False ?G (p0, r0, []))"
    unfolding r0_def using rxm_RGroup_I[OF secret_name_match[OF kw, of p0 r1 "[]"], of 1] by blast
  then obtain c1 where m1: "(lastOr p0 kw, r1, c1) \<in> set (rxm True False ?G (p0, r0, []))" ..
  have m2: "(lastOr (lastOr p0 kw) ws1, r2, c1) \<in> set (rxm True False ?S (lastOr p0 kw, r1, c1))"
    unfolding r1_def by (rule rxm_star_set_I) (use ws1 in \<open>simp add: list_all_iff\<close>)
  have m3: "(lastOr (lastOr (lastOr p0 kw) ws1) ''='', r3, c1)
      \<in> set (rxm True False (RStr ''='') (lastOr (lastOr p0 kw) ws1, r2, c1))"
    unfolding r2_def by (rule rxm_RStr_self)
  let ?p3 = "lastOr (lastOr (lastOr p0 kw) ws1) ''=''"
  have m4: "(lastOr ?p3 ws2, r4, c1) \<in> set (rxm True False ?S (?p3, r3, c1))"
    unfolding r3_def by (rule rxm_star_set_I) (use ws2 in \<open>simp add: list_all_iff\<close>)
  have m5: "(Some q1, r5, c1) \<in> set (rxm True False ?Q (lastOr ?p3 ws2, r4, c1))"
    unfolding r4_def using q1 by (subst rxm_RSet_I) (simp_all only: quote_item simp_thms list.set insert_iff)
  have m6a: "(Some b, bs @ r6, c1) \<in> set (rxm True False ?N (Some q1, r5, c1))"
    unfolding r5_def b using body(2,3) b
    by (subst append_Cons, subst rxm_RSet_I) (auto simp only: quote_item simp_thms list.set insert_iff)
  have m6b: "(lastOr (Some b) bs, r6, c1) \<in> set (rxm True False (RStar True ?N) (Some b, bs @ r6, c1))"
    by (rule rxm_star_set_I) (use body(2,3) b in \<open>auto simp only: quote_item list_all_iff simp_thms list.set insert_iff\<close>)
  have m7: "(Some q2, r7, c1) \<in> set (rxm True False ?Q (lastOr (Some b) bs, r6, c1))"
    unfolding r6_def using q2 by (subst rxm_RSet_I) (simp_all only: quote_item simp_thms list.set insert_iff)
  have "(Some q2, r7, c1) \<in> set (rxm True False
      (RSeq ?G (RSeq ?S (RSeq (RStr ''='') (RSeq ?S (RSeq ?Q (RSeq (RPlus ?N) ?Q)))))) (p0, r0, []))"
    by (rule rxm_RSeq_I[OF m1 rxm_RSeq_I[OF m2 rxm_RSeq_I[OF m3 rxm_RSeq_I[OF m4 rxm_RSeq_I[OF m5
          rxm_RSeq_I[OF rxm_RSeq_I[OF m6a m6b] m7]]]]]])
  then have "rxm True False
      (RSeq ?G (RSeq ?S (RSeq (RStr ''='') (RSeq ?S (RSeq ?Q (RSeq (RPlus ?N) ?Q)))))) (p0, r0, []) \<noteq> []"
    by (rule in_set_nonempty)
  moreover have "pattern rx_hardcodedSecret
      = RSeq ?G (RSeq ?S (RSeq (RStr ''='') (RSeq ?S (RSeq ?Q (RSeq (RPlus ?N) ?Q)))))"
    by (simp add: rx_hardcodedSecret_def)
  ultimately have "rxm True False (pattern rx_hardcodedSecret) (lastOr None pre, r0, []) \<noteq> []"
    by (simp only: p0_def simp_thms)
  then have "rxSearch True False (pattern rx_hardcodedSecret) None (pre @ r0) \<noteq> None"
    by (rule rxSearch_complete)
  moreover have "flagI rx_hardcodedSecret" "\<not> flagM rx_hardcodedSecret"
    by (simp_all add: rx_hardcodedSecret_def)
  moreover have "pre @ r0 = pre @ kw @ ws1 @ ''='' @ ws2 @ [q1] @ body @ [q2] @ post"
    by (simp add: r0_def r1_def r2_def r3_def r4_def r5_def r6_def r7_def)
  ultimately show ?thesis by (simp add: regexTest_def)
qed


lemma secret_guard:
  assumes "kw \<in> {''password'', ''secret'', ''api_key'', ''api-key'', ''apikey'', ''token''}"
  shows "includesStr (pre @ kw @ rest) ''password'' \<or> includesStr (pre @ kw @ rest) ''secret''
       \<or> includesStr (pre @ kw @ rest) ''key'' \<or> includesStr (pre @ kw @ rest) ''token''"
proof -
  consider "kw = ''password''" | "kw = ''secret''" | "kw = ''token''"
    | a where "kw = a @ ''key''"
    using assms by auto
  then show ?thesis
  proof cases
    case 1 then show ?thesis by (simp only: includesStr_app simp_thms)
  next
    case 2 then show ?thesis by (simp only: includesStr_app simp_thms)
  next
    case 3 then show ?thesis by (simp only: includesStr_app simp_thms)
  next
    case 4
    have "includesStr ((pre @ a) @ ''key'' @ rest) ''key''" by (rule includesStr_app)
    then show ?thesis by (simp only: 4 append_assoc simp_thms)
  qed
qed

lemma filter_rule:
  "filter P (if b then [x] else []) = (if b \<and> P x then [x] else [])"
  by (cases b) simp_all

lemma problem_mkIssue [simp]: "problem (mkIssue f pr fx sev ln added) = pr"
  by (simp add: mkIssue_def)

subsection \<open>The loop of the heuristic scanner\<close>

text \<open>
  The issues only grow, and the scan of a list of lines is the scan of its first part
  followed by the scan of the rest from the state that the first part leaves.
\<close>

lemma startsWith_prefix: "startsWith s w = prefix w s"
proof
  assume "startsWith s w"
  then have "take (length w) s = w" by (simp add: startsWith_def)
  then show "prefix w s" by (metis take_is_prefix)
next
  assume "prefix w s"
  then obtain zs where "s = w @ zs" by (auto simp: prefix_def)
  then show "startsWith s w" by (simp add: startsWith_def)
qed

lemma scanLines_results:
  "scanLines ls f n (res @ rest) = res @ scanLines ls f n rest"
proof (induction ls arbitrary: f n rest)
  case Nil
  show ?case by simp
next
  case (Cons l ls)
  show ?case
  proof (cases "startsWith l ''+++ b/''")
    case True
    then show ?thesis by (simp only: scanLines.simps simp_thms if_True Cons)
  next
    case f1: False
    show ?thesis
    proof (cases "startsWith l ''@@''")
      case True
      show ?thesis
      proof (cases "stringMatch l rx_hunkStart")
        case None
        with f1 True show ?thesis by (simp only: scanLines.simps simp_thms if_True if_False option.case Cons)
      next
        case (Some mc)
        obtain m c where "mc = (m, c)" by (cases mc)
        with Some f1 True show ?thesis
          by (simp only: scanLines.simps simp_thms if_True if_False option.case prod.case Cons)
      qed
    next
      case f2: False
      show ?thesis
      proof (cases "startsWith l ''+'' \<and> \<not> startsWith l ''+++''")
        case True
        with f1 f2 show ?thesis
          by (simp only: scanLines.simps simp_thms if_True if_False append_assoc Cons)
      next
        case False
        with f1 f2 show ?thesis
          by (simp only: scanLines.simps simp_thms if_True if_False Cons)
      qed
    qed
  qed
qed

lemma scanLines_append:
  "scanLines (ls1 @ ls2) f n res
   = scanLines ls2 (fst (scanState ls1 f n)) (snd (scanState ls1 f n)) (scanLines ls1 f n res)"
proof (induction ls1 arbitrary: f n res)
  case Nil
  show ?case by simp
next
  case (Cons l ls)
  show ?case
  proof (cases "startsWith l ''+++ b/''")
    case True
    then show ?thesis
      by (simp only: append_Cons scanLines.simps scanState.simps simp_thms if_True Cons)
  next
    case f1: False
    show ?thesis
    proof (cases "startsWith l ''@@''")
      case True
      show ?thesis
      proof (cases "stringMatch l rx_hunkStart")
        case None
        with f1 True show ?thesis
          by (simp only: append_Cons scanLines.simps scanState.simps simp_thms if_True if_False
                option.case Cons)
      next
        case (Some mc)
        obtain m c where "mc = (m, c)" by (cases mc)
        with Some f1 True show ?thesis
          by (simp only: append_Cons scanLines.simps scanState.simps simp_thms if_True if_False
                option.case prod.case Cons)
      qed
    next
      case f2: False
      show ?thesis
      proof (cases "startsWith l ''+'' \<and> \<not> startsWith l ''+++''")
        case True
        with f1 f2 show ?thesis
          by (simp only: append_Cons scanLines.simps scanState.simps simp_thms if_True if_False Cons)
      next
        case False
        with f1 f2 show ?thesis
          by (simp only: append_Cons scanLines.simps scanState.simps simp_thms if_True if_False Cons)
      qed
    qed
  qed
qed

lemma scanLines_added:
  assumes "\<not> startsWith added ''++''"
  shows "scanLines ((''+'' @ added) # ls) f n res
         = scanLines ls f (n + 1) (res @ scanAdded f (n + 1) added)"
proof -
  from assms have a: "\<not> prefix ''++'' added" by (simp only: startsWith_prefix simp_thms)
  have "\<not> prefix (''++'' @ '' b/'') added"
    using a append_prefixD by blast
  then have b: "\<not> prefix ''++ b/'' added" by simp
  have 1: "\<not> startsWith (''+'' @ added) ''+++ b/''"
    using b by (simp add: startsWith_prefix)
  have 2: "\<not> startsWith (''+'' @ added) ''@@''"
    by (simp add: startsWith_prefix)
  have 3: "startsWith (''+'' @ added) ''+''"
    by (simp add: startsWith_prefix)
  have 4: "\<not> startsWith (''+'' @ added) ''+++''"
    using a by (simp add: startsWith_prefix)
  have 5: "drop 1 (''+'' @ added) = added" by simp
  show ?thesis
    by (simp only: scanLines.simps 1 2 3 4 5 simp_thms if_True if_False)
qed

section \<open>Facts about the trailing-whitespace transformation\<close>

lemma blank_item: "list_ex (inItem False c) [CChar CHR '' '', CChar tab] = isBlank c"
  by (simp add: canonicalize_def isBlank_def)

lemma blank_not_eol: "isBlank c \<Longrightarrow> \<not> isLineTerminator c"
  by (auto simp: isBlank_def isLineTerminator_def)

lemma rxm_REol: "rxm ic True REol (p, s, c) = (if atEol s then [(p, s, c)] else [])"
  by (cases s) simp_all

lemma blank_run_eol:
  "rxm False True (RSeq (RStar True (RIn [CChar CHR '' '', CChar tab])) REol) (p, s, c)
   = (if atEol (dropWhile isBlank s)
      then [(lastOr p (takeWhile isBlank s), dropWhile isBlank s, c)] else [])"
proof (induction s arbitrary: p)
  case Nil
  show ?case by (simp add: Let_def)
next
  case (Cons ch t)
  show ?case
  proof (cases "isBlank ch")
    case True
    have "rxm False True (RSeq (RStar True (RIn [CChar CHR '' '', CChar tab])) REol) (p, ch # t, c)
        = rxm False True (RSeq (RStar True (RIn [CChar CHR '' '', CChar tab])) REol) (Some ch, t, c)"
      using True blank_not_eol[OF True]
      by (simp add: Let_def blank_item del: list_ex_Cons_iff list_ex_Nil_iff inItem.simps)
    with Cons.IH[of "Some ch"] True show ?thesis by (simp add: lastOr_Cons)
  next
    case False
    then show ?thesis
      by (simp add: Let_def blank_item del: list_ex_Cons_iff list_ex_Nil_iff inItem.simps)
  qed
qed

lemma rxm_RSeq_assoc:
  "rxm ic ml (RSeq (RSeq a b) c) st = rxm ic ml (RSeq a (RSeq b c)) st"
proof -
  have "concat (map f (concat (map g xs))) = concat (map (\<lambda>x. concat (map f (g x))) xs)"
    for f :: "mstate \<Rightarrow> mstate list" and g :: "mstate \<Rightarrow> mstate list" and xs
    by (induction xs) simp_all
  then have "concat (map (rxm ic ml c) (concat (map (rxm ic ml b) (rxm ic ml a st))))
      = concat (map (\<lambda>x. concat (map (rxm ic ml c) (rxm ic ml b x))) (rxm ic ml a st))" .
  moreover have "rxm ic ml (RSeq b c) = (\<lambda>x. concat (map (rxm ic ml c) (rxm ic ml b x)))"
    by (rule ext) simp
  ultimately show ?thesis by (simp only: rxm.simps(5))
qed

lemma trim_match:
  "rxm False True (pattern rx_trimWhitespace) (p, s, c)
   = (case s of [] \<Rightarrow> []
      | ch # t \<Rightarrow> if isBlank ch \<and> atEol (dropWhile isBlank t)
                 then [(lastOr (Some ch) (takeWhile isBlank t), dropWhile isBlank t, c)] else [])"
proof -
  let ?C = "RIn [CChar CHR '' '', CChar tab]"
  have "rxm False True (pattern rx_trimWhitespace) (p, s, c)
      = rxm False True (RSeq ?C (RSeq (RStar True ?C) REol)) (p, s, c)"
    unfolding rx_trimWhitespace_def pattern.simps RCat.simps by (rule rxm_RSeq_assoc)
  also have "\<dots> = concat (map (rxm False True (RSeq (RStar True ?C) REol))
          (rxm False True ?C (p, s, c)))"
    by (simp only: rxm.simps(5))
  also have "\<dots> = (case s of [] \<Rightarrow> []
      | ch # t \<Rightarrow> if isBlank ch \<and> atEol (dropWhile isBlank t)
                 then [(lastOr (Some ch) (takeWhile isBlank t), dropWhile isBlank t, c)] else [])"
    by (cases s) (simp_all add: blank_item blank_run_eol
          del: list_ex_Cons_iff list_ex_Nil_iff inItem.simps rxm.simps(5,7,11))
  finally show ?thesis .
qed


lemma atEol_strip: "atEol (stripTrailing t) = atEol (dropWhile isBlank t)"
  by (induction t) (auto simp: blank_not_eol)

lemma strip_dropWhile:
  "atEol (dropWhile isBlank t) \<Longrightarrow> stripTrailing t = stripTrailing (dropWhile isBlank t)"
  by (induction t) (auto simp: atEol_strip)

lemma trim_search_head:
  assumes "isBlank ch \<and> atEol (dropWhile isBlank t)"
  shows "rxSearch False True (pattern rx_trimWhitespace) p (ch # t)
     = Some ([], take (length (ch # t) - length (dropWhile isBlank t)) (ch # t), [],
             lastOr (Some ch) (takeWhile isBlank t), dropWhile isBlank t)"
proof -
  from assms have "rxm False True (pattern rx_trimWhitespace) (p, ch # t, [])
      = [(lastOr (Some ch) (takeWhile isBlank t), dropWhile isBlank t, [])]"
    by (simp add: trim_match)
  then show ?thesis by (simp only: rxSearch.simps list.case prod.case)
qed

lemma trim_search_tail:
  assumes "\<not> (isBlank ch \<and> atEol (dropWhile isBlank t))"
  shows "rxSearch False True (pattern rx_trimWhitespace) p (ch # t)
     = (case rxSearch False True (pattern rx_trimWhitespace) (Some ch) t of
          None \<Rightarrow> None
        | Some (pre, m, c, p', s') \<Rightarrow> Some (ch # pre, m, c, p', s'))"
proof -
  from assms have "rxm False True (pattern rx_trimWhitespace) (p, ch # t, []) = []"
    by (simp add: trim_match)
  then show ?thesis by (simp only: rxSearch.simps list.case)
qed


lemma trim_search_None:
  "rxSearch False True (pattern rx_trimWhitespace) p s = None \<Longrightarrow> stripTrailing s = s"
proof (induction s arbitrary: p)
  case Nil
  show ?case by simp
next
  case (Cons ch t)
  have no: "\<not> (isBlank ch \<and> atEol (dropWhile isBlank t))"
  proof
    assume hd: "isBlank ch \<and> atEol (dropWhile isBlank t)"
    from Cons.prems trim_search_head[OF hd, of p] show False by (simp only:) simp
  qed
  from Cons.prems trim_search_tail[OF no, of p]
  have "(case rxSearch False True (pattern rx_trimWhitespace) (Some ch) t of
          None \<Rightarrow> None
        | Some (pre, m, c, p', s') \<Rightarrow> Some (ch # pre, m, c, p', s')) = None"
    by (simp only:)
  then have rest: "rxSearch False True (pattern rx_trimWhitespace) (Some ch) t = None"
    by (cases "rxSearch False True (pattern rx_trimWhitespace) (Some ch) t") auto
  from no have "\<not> (isBlank ch \<and> atEol (stripTrailing t))" by (simp add: atEol_strip)
  then have "stripTrailing (ch # t) = ch # stripTrailing t" by simp
  with Cons.IH[OF rest] show ?case by simp
qed

lemma trim_search_Some:
  "rxSearch False True (pattern rx_trimWhitespace) p s = Some (pre, m, c, p', s')
   \<Longrightarrow> m \<noteq> [] \<and> stripTrailing s = pre @ stripTrailing s'"
proof (induction s arbitrary: p pre)
  case Nil
  then show ?case by (simp add: trim_match)
next
  case (Cons ch t)
  show ?case
  proof (cases "isBlank ch \<and> atEol (dropWhile isBlank t)")
    case True
    from Cons.prems trim_search_head[OF True, of p]
    have "(pre, m, c, p', s') = ([], take (length (ch # t) - length (dropWhile isBlank t)) (ch # t),
        [], lastOr (Some ch) (takeWhile isBlank t), dropWhile isBlank t)"
      by (simp only: option.inject)
    then have "pre = []" and s': "s' = dropWhile isBlank t"
      and m: "m = take (length (ch # t) - length (dropWhile isBlank t)) (ch # t)"
      by (simp_all only: prod.inject simp_thms)
    have "length (dropWhile isBlank t) \<le> length t" by (rule length_dropWhile_le)
    then have "length (ch # t) - length (dropWhile isBlank t) = Suc (length t - length (dropWhile isBlank t))"
      by simp
    with m have "m \<noteq> []" by simp
    moreover from True strip_dropWhile[of t]
    have "stripTrailing (ch # t) = stripTrailing (dropWhile isBlank t)"
      by (simp add: atEol_strip)
    ultimately show ?thesis using \<open>pre = []\<close> s' by simp
  next
    case False
    from Cons.prems trim_search_tail[OF False, of p]
    have "(case rxSearch False True (pattern rx_trimWhitespace) (Some ch) t of
          None \<Rightarrow> None
        | Some (pre, m, c, p', s') \<Rightarrow> Some (ch # pre, m, c, p', s')) = Some (pre, m, c, p', s')"
      by (simp only:)
    then obtain pre' where
      rest: "rxSearch False True (pattern rx_trimWhitespace) (Some ch) t = Some (pre', m, c, p', s')"
      and pre: "pre = ch # pre'"
      by (cases "rxSearch False True (pattern rx_trimWhitespace) (Some ch) t") auto
    from False have "\<not> (isBlank ch \<and> atEol (stripTrailing t))" by (simp add: atEol_strip)
    then have "stripTrailing (ch # t) = ch # stripTrailing t" by simp
    with Cons.IH[OF rest] pre show ?thesis by simp
  qed
qed

lemma trimWhitespace_from:
  "regexReplaceFrom rx_trimWhitespace [] seen p s = stripTrailing s"
proof (induction "length s" arbitrary: seen p s rule: less_induct)
  case less
  have fl: "flagI rx_trimWhitespace = False" "flagM rx_trimWhitespace = True"
    "flagG rx_trimWhitespace = True"
    by (simp_all add: rx_trimWhitespace_def)
  show ?case
  proof (cases "rxSearch False True (pattern rx_trimWhitespace) p s")
    case None
    then show ?thesis
      by (subst regexReplaceFrom.simps) (simp add: fl trim_search_None)
  next
    case (Some f)
    obtain pre m c p' s' where f: "f = (pre, m, c, p', s')" by (cases f)
    from Some f have sr: "rxSearch False True (pattern rx_trimWhitespace) p s = Some (pre, m, c, p', s')"
      by simp
    from trim_search_Some[OF sr] have m: "m \<noteq> []" and st: "stripTrailing s = pre @ stripTrailing s'"
      by simp_all
    from rxSearch_shorter[OF sr m] have "length s' < length s" .
    from less[OF this] have "regexReplaceFrom rx_trimWhitespace [] (seen @ pre @ m) p' s' = stripTrailing s'" .
    with sr m st show ?thesis
      by (subst regexReplaceFrom.simps) (simp add: fl)
  qed
qed

lemma trimWhitespace_stripTrailing: "trimWhitespace s = stripTrailing s"
  by (simp add: trimWhitespace_def regexReplace_def trimWhitespace_from)

lemma stripTrailing_idem: "stripTrailing (stripTrailing s) = stripTrailing s"
  by (induction s) auto

section \<open>Facts about the context resolver\<close>

text \<open>Where the search reports a match, the pattern matches there, and the head of the matcher's list is what is reported.\<close>

lemma rxSearch_head:
  "rxSearch ic ml r p s = Some (pre, m, c, p', s') \<Longrightarrow>
   \<exists>x sts. s = pre @ x \<and> rxm ic ml r (lastOr p pre, x, []) = (p', s', c) # sts
     \<and> m = take (length x - length s') x"
proof (induction s arbitrary: p pre)
  case Nil
  then show ?case by (auto split: list.splits)
next
  case (Cons ch t)
  show ?case
  proof (cases "rxm ic ml r (p, ch # t, [])")
    case Nil
    with Cons.prems obtain pre' where rest: "rxSearch ic ml r (Some ch) t = Some (pre', m, c, p', s')"
      and pre: "pre = ch # pre'" by (auto split: option.splits)
    from Cons.IH[OF rest] obtain x sts where "t = pre' @ x"
      "rxm ic ml r (lastOr (Some ch) pre', x, []) = (p', s', c) # sts"
      "m = take (length x - length s') x" by blast
    with pre show ?thesis by (auto simp: lastOr_Cons)
  next
    case (Cons st sts)
    with Cons.prems show ?thesis by (cases st) auto
  qed
qed

lemma literalStart_consumes:
  assumes "literalStart re"
    and "(p', s', c') \<in> set (rxm ic ml (pattern re) (p, s, c))"
  shows "length s' < length s"
proof -
  from assms(1) obtain w r where pat: "pattern re = RSeq (RStr w) r" and w: "w \<noteq> []"
    by (auto simp: literalStart_def split: rx.splits)
  from assms(2) pat obtain st where st: "st \<in> set (rxm ic ml (RStr w) (p, s, c))"
    and fin: "(p', s', c') \<in> set (rxm ic ml r st)" by auto
  from st have len: "length w \<le> length s" and st_eq: "st = (lastOr p (take (length w) s), drop (length w) s, c)"
    by (auto split: if_splits)
  from fin st_eq have "suffix s' (drop (length w) s)" by (auto dest: rxm_suffix)
  then have "length s' \<le> length s - length w" by (auto dest: suffix_length_le)
  with len w show ?thesis by (cases w) auto
qed

lemma execAll_total:
  assumes "literalStart re"
  shows "\<exists>ms. execAll re p s = Some ms"
proof (induction "length s" arbitrary: p s rule: less_induct)
  case less
  show ?case
  proof (cases "rxSearch (flagI re) (flagM re) (pattern re) p s")
    case None
    then show ?thesis by (subst execAll.simps) simp
  next
    case (Some f)
    obtain pre m c p' s' where f: "f = (pre, m, c, p', s')" by (cases f)
    with Some have sr: "rxSearch (flagI re) (flagM re) (pattern re) p s = Some (pre, m, c, p', s')"
      by simp
    from rxSearch_head[OF sr] obtain x sts where x: "s = pre @ x"
      and hd: "rxm (flagI re) (flagM re) (pattern re) (lastOr p pre, x, []) = (p', s', c) # sts"
      and m: "m = take (length x - length s') x" by blast
    from hd have "(p', s', c) \<in> set (rxm (flagI re) (flagM re) (pattern re) (lastOr p pre, x, []))"
      by simp
    from literalStart_consumes[OF assms this] have lt: "length s' < length x" .
    with m have "m \<noteq> []" by (cases x) auto
    from lt x have "length s' < length s" by simp
    from less[OF this] obtain ms where "execAll re p' s' = Some ms" by blast
    with sr \<open>m \<noteq> []\<close> show ?thesis by (subst execAll.simps) simp
  qed
qed

lemma collectImports_total:
  "list_all literalStart res \<Longrightarrow> \<exists>found'. collectImports res src found = Some found'"
proof (induction res arbitrary: found)
  case Nil
  show ?case by simp
next
  case (Cons re res)
  then have "literalStart re" and rest: "list_all literalStart res" by simp_all
  from execAll_total[OF this(1)] obtain ms where "execAll re None src = Some ms" by blast
  with Cons.IH[OF rest] show ?case by simp
qed

lemma importRegexes_literalStart: "list_all literalStart importRegexes"
  by (simp add: importRegexes_def literalStart_def)

text \<open>The loops over the import patterns always end.\<close>

lemma parseRelativeImports_total: "\<exists>imps. parseRelativeImports src = Some imps"
proof -
  from collectImports_total[OF importRegexes_literalStart]
  obtain found where "collectImports importRegexes src [] = Some found" by blast
  then show ?thesis by (simp add: parseRelativeImports_def)
qed

lemma addImports_fresh:
  "addImports h fs maxFiles item imps (out, queue, seen) = (out', queue', seen') \<Longrightarrow>
   \<exists>added. out' = out @ added \<and> seen' = seen \<union> set (map path added)
     \<and> distinct (map path added) \<and> set (map path added) \<inter> seen = {}"
proof (induction imps arbitrary: out queue seen)
  case Nil
  then show ?case by simp
next
  case (Cons imp imps)
  show ?case
  proof (cases "resolveImportPath h fs (path item) imp")
    case None
    with Cons.prems have "addImports h fs maxFiles item imps (out, queue, seen) = (out', queue', seen')"
      by simp
    from Cons.IH[OF this] show ?thesis .
  next
    case (Some resolved)
    show ?thesis
    proof (cases "resolved = [] \<or> resolved \<in> seen \<or> isl (readFileSync fs resolved)")
      case True
      with Some Cons.prems
      have "addImports h fs maxFiles item imps (out, queue, seen) = (out', queue', seen')"
        by (cases "readFileSync fs resolved") (auto split: if_splits)
      from Cons.IH[OF this] show ?thesis .
    next
      case False
      then obtain c where c: "readFileSync fs resolved = Inr c" by (cases "readFileSync fs resolved") auto
      define entry where "entry = \<lparr> path = resolved, content = take 20000 c \<rparr>"
      have pe: "path entry = resolved" by (simp add: entry_def)
      show ?thesis
      proof (cases "int (length (out @ [entry])) \<ge> maxFiles")
        case True
        with Some False c Cons.prems have "out' = out @ [entry]" "seen' = insert resolved seen"
          by (simp_all add: entry_def Let_def)
        with False pe show ?thesis by (intro exI[of _ "[entry]"]) auto
      next
        case full: False
        with Some False c Cons.prems
        have "addImports h fs maxFiles item imps (out @ [entry], queue @ [entry], insert resolved seen)
            = (out', queue', seen')"
          by (simp add: entry_def Let_def)
        from Cons.IH[OF this] obtain added where a: "out' = (out @ [entry]) @ added"
          "seen' = insert resolved seen \<union> set (map path added)"
          "distinct (map path added)" "set (map path added) \<inter> insert resolved seen = {}" by blast
        with False pe show ?thesis by (intro exI[of _ "entry # added"]) auto
      qed
    qed
  qed
qed

lemma expandLoop_state:
  "\<exists>extra. expandLoop h fs maxFiles st = Some (fst st @ extra)
     \<and> int (length (fst st @ extra)) \<le> max maxFiles (int (length (fst st)))
     \<and> distinct (map path extra) \<and> set (map path extra) \<inter> snd (snd st) = {}"
proof (induction h fs maxFiles st rule: expandLoop.induct)
  case (1 h fs maxFiles out queue seen)
  show ?case
  proof (cases queue)
    case Nil
    then show ?thesis by (subst expandLoop.simps) (simp add: exI[of _ "[]"])
  next
    case (Cons item rest)
    show ?thesis
    proof (cases "int (length out) < maxFiles")
      case False
      with Cons show ?thesis by (subst expandLoop.simps) (simp add: exI[of _ "[]"])
    next
      case True
      obtain imps where imps: "parseRelativeImports (content item) = Some imps"
        using parseRelativeImports_total by blast
      obtain out' queue' seen' where
        st: "addImports h fs maxFiles item imps (out, rest, seen) = (out', queue', seen')"
        by (cases "addImports h fs maxFiles item imps (out, rest, seen)") auto
      from addImports_appends[OF st] True have bound: "int (length out') \<le> maxFiles" by auto
      from addImports_fresh[OF st] obtain added where a: "out' = out @ added"
        "seen' = seen \<union> set (map path added)" "distinct (map path added)"
        "set (map path added) \<inter> seen = {}" by blast
      from True have room: "\<not> \<not> int (length out) < maxFiles" by simp
      from "1.IH"[OF Cons room imps] st
      obtain extra where e: "expandLoop h fs maxFiles (out', queue', seen') = Some (out' @ extra)"
        "int (length (out' @ extra)) \<le> max maxFiles (int (length out'))"
        "distinct (map path extra)" "set (map path extra) \<inter> seen' = {}" by auto
      have run: "expandLoop h fs maxFiles (out, queue, seen) = Some (out @ (added @ extra))"
        using Cons True imps st e(1) a(1) by (subst expandLoop.simps) simp
      moreover from e(2) bound a(1) have "int (length (out @ (added @ extra))) \<le> max maxFiles (int (length out))"
        by simp
      moreover from a e have "distinct (map path (added @ extra))" by auto
      moreover from a e have "set (map path (added @ extra)) \<inter> seen = {}" by auto
      ultimately show ?thesis by (intro exI[of _ "added @ extra"]) simp
    qed
  qed
qed

lemma expandLoop_result:
  "\<exists>extra. expandLoop h fs maxFiles (out, queue, seen) = Some (out @ extra)
     \<and> int (length (out @ extra)) \<le> max maxFiles (int (length out))
     \<and> distinct (map path extra) \<and> set (map path extra) \<inter> seen = {}"
  using expandLoop_state[of h fs maxFiles "(out, queue, seen)"] by simp

section \<open>Facts about the parsed issues\<close>

lemma sequenceSum_Inr:
  "sequenceSum xs = Inr ys \<Longrightarrow> xs = map Inr ys"
proof (induction xs arbitrary: ys rule: sequenceSum.induct)
  case 1
  then show ?case by simp
next
  case (2 e xs)
  then show ?case by simp
next
  case (3 x xs)
  then show ?case by (auto split: sum.splits)
qed

lemma normalizeOne_plain:
  "normalizeOne h it = Inr i \<Longrightarrow>
   line i = None \<and> snippet i = None \<and> fixedCode i = None \<and> autoFixable i = None"
  by (auto simp: normalizeOne_def split: sum.splits)

lemma normalizeIssues_plain:
  assumes "normalizeIssues h arr = Inr issues" and "i \<in> set issues"
  shows "line i = None \<and> snippet i = None \<and> fixedCode i = None \<and> autoFixable i = None"
proof -
  from assms(1) obtain its where s: "sequenceSum (map (normalizeOne h) arr) = Inr its"
    and f: "issues = filter (\<lambda>it. issue_file it \<noteq> [] \<and> problem it \<noteq> [] \<and> issue_fix it \<noteq> []) its"
    by (auto simp: normalizeIssues_def split: sum.splits)
  from s have "map (normalizeOne h) arr = map Inr its" by (rule sequenceSum_Inr)
  moreover from assms(2) f have "i \<in> set its" by simp
  ultimately have "Inr i \<in> set (map (normalizeOne h) arr)" by simp
  then obtain it where "normalizeOne h it = Inr i" by auto
  then show ?thesis by (rule normalizeOne_plain)
qed

lemma parseArray_plain:
  assumes "parseArray h text = Some issues" and "i \<in> set issues"
  shows "line i = None \<and> snippet i = None \<and> fixedCode i = None \<and> autoFixable i = None"
proof -
  from assms(1) obtain arr where "normalizeIssues h arr = Inr issues"
    by (auto simp: parseArray_def split: sum.splits option.splits jsval.splits)
  from normalizeIssues_plain[OF this assms(2)] show ?thesis .
qed

lemma safeParseIssues_plain:
  assumes "safeParseIssues h text = Inr issues" and "i \<in> set issues"
  shows "line i = None \<and> snippet i = None \<and> fixedCode i = None \<and> autoFixable i = None"
proof -
  from assms have "\<exists>t. parseArray h t = Some issues"
    by (auto simp: safeParseIssues_def split: option.splits jsval.splits prod.splits)
  then obtain t where "parseArray h t = Some issues" ..
  from parseArray_plain[OF this assms(2)] show ?thesis .
qed

subsection \<open>Applying the fixes in a dry run\<close>

lemma readFileSync_Inr: "readFileSync fs p = Inr c \<Longrightarrow> fs p = Some (File c)"
  by (auto simp: readFileSync_def split: option.splits fsnode.splits)

lemma writeFileSync_Inr: "writeFileSync fs p c = Inr fs1 \<Longrightarrow> fs1 = fs(p \<mapsto> File c)"
  by (auto simp: writeFileSync_def split: option.splits fsnode.splits)

text \<open>In a dry run with backups, the step for one file writes at most the backup.\<close>

lemma fixFile_dry:
  assumes "dryRun options" and "backup options"
    and "fixFile h options fs entry = (res, fs')"
  shows "case res of
           Inl e \<Rightarrow> fs' = fs
         | Inr None \<Rightarrow> fs' = fs
         | Inr (Some r) \<Rightarrow> result_file r = fst entry \<and> 0 < fixesApplied r
             \<and> (\<exists>orig. fs (targetPath h (fst entry)) = Some (File orig)
                   \<and> fs' = fs(targetPath h (fst entry) @ backupSuffix \<mapsto> File orig))"
proof (cases "filter canAutoFix (snd entry) = []")
  case True
  with assms(3) show ?thesis by (auto simp: fixFile_def Let_def)
next
  case ne: False
  show ?thesis
  proof (cases "existsSync fs (targetPath h (fst entry))")
    case False
    with ne assms(3) show ?thesis by (auto simp: fixFile_def Let_def targetPath_def)
  next
    case ex: True
    show ?thesis
    proof (cases "readFileSync fs (targetPath h (fst entry))")
      case (Inl e)
      with ne ex assms(3) show ?thesis by (auto simp: fixFile_def Let_def targetPath_def)
    next
      case (Inr orig)
      obtain contents fixCount where fl: "fixLoop (filter canAutoFix (snd entry)) orig 0 = (contents, fixCount)"
        by (cases "fixLoop (filter canAutoFix (snd entry)) orig 0") auto
      show ?thesis
      proof (cases "fixCount > 0")
        case False
        with ne ex Inr fl assms(3) show ?thesis by (auto simp: fixFile_def Let_def targetPath_def)
      next
        case pos: True
        show ?thesis
        proof (cases "writeFileSync fs (targetPath h (fst entry) @ backupSuffix) orig")
          case (Inl e)
          with ne ex Inr fl pos assms show ?thesis by (auto simp: fixFile_def Let_def targetPath_def)
        next
          case w: (Inr fs1)
          from w have "fs1 = fs(targetPath h (fst entry) @ backupSuffix \<mapsto> File orig)"
            by (rule writeFileSync_Inr)
          moreover from Inr have "fs (targetPath h (fst entry)) = Some (File orig)"
            by (rule readFileSync_Inr)
          ultimately show ?thesis
            using ne ex Inr fl pos w assms by (auto simp: fixFile_def Let_def targetPath_def)
        qed
      qed
    qed
  qed
qed

lemma fixLoop_Nil_count: "snd (fixLoop [] contents k) = k"
  by simp

text \<open>When the content in memory changes, the step for one file writes the backup.\<close>

lemma fixFile_dry_changed:
  assumes "dryRun options" and "backup options"
    and o: "fs (targetPath h (fst entry)) = Some (File orig)"
    and pos: "0 < snd (fixLoop (filter canAutoFix (snd entry)) orig 0)"
    and run: "fixFile h options fs entry = (Inr ro, fs')"
  shows "fs' = fs(targetPath h (fst entry) @ backupSuffix \<mapsto> File orig)"
proof -
  have ne: "filter canAutoFix (snd entry) \<noteq> []"
  proof
    assume "filter canAutoFix (snd entry) = []"
    with pos show False by simp
  qed
  from o have ex: "existsSync fs (targetPath h (fst entry))" by (simp add: existsSync_def)
  from o have rd: "readFileSync fs (targetPath h (fst entry)) = Inr orig"
    by (simp add: readFileSync_def)
  obtain contents fixCount where
    fl: "fixLoop (filter canAutoFix (snd entry)) orig 0 = (contents, fixCount)"
    by (cases "fixLoop (filter canAutoFix (snd entry)) orig 0") auto
  with pos have p: "fixCount > 0" by simp
  show ?thesis
  proof (cases "writeFileSync fs (targetPath h (fst entry) @ backupSuffix) orig")
    case (Inl e)
    with ne ex rd fl p assms(1,2) run show ?thesis
      by (simp add: fixFile_def Let_def targetPath_def)
  next
    case (Inr fs1)
    then have "fs1 = fs(targetPath h (fst entry) @ backupSuffix \<mapsto> File orig)"
      by (rule writeFileSync_Inr)
    with Inr ne ex rd fl p assms(1,2) run show ?thesis
      by (simp add: fixFile_def Let_def targetPath_def)
  qed
qed

text \<open>
  In a dry run with backups over files none of which is the backup of another, every
  path whose content differs at the end is the backup path of a file and holds what
  that file held, and every file whose content changed in memory has such a backup.
\<close>

lemma fixFiles_dry:
  assumes dry: "dryRun options" and bk: "backup options"
  shows "(\<And>a b. a \<in> fst ` set entries \<Longrightarrow> b \<in> fst ` set entries \<Longrightarrow>
            targetPath h a \<noteq> targetPath h b @ backupSuffix) \<Longrightarrow>
         fixFiles h options entries results0 fs = (Inr results, fs') \<Longrightarrow>
         (\<forall>p. fs' p \<noteq> fs p \<longrightarrow>
            (\<exists>e \<in> set entries. \<exists>orig. p = targetPath h (fst e) @ backupSuffix
               \<and> fs (targetPath h (fst e)) = Some (File orig) \<and> fs' p = Some (File orig)))
         \<and> (\<forall>e \<in> set entries. \<forall>orig. fs (targetPath h (fst e)) = Some (File orig)
               \<and> 0 < snd (fixLoop (filter canAutoFix (snd e)) orig 0)
               \<longrightarrow> fs' (targetPath h (fst e) @ backupSuffix) = Some (File orig))"
proof (induction entries arbitrary: results0 fs)
  case Nil
  then show ?case by simp
next
  case (Cons entry entries)
  have noalias: "\<And>a b. a \<in> fst ` set entries \<Longrightarrow> b \<in> fst ` set entries \<Longrightarrow>
            targetPath h a \<noteq> targetPath h b @ backupSuffix"
    using Cons.prems(1) by simp
  obtain res fs1 where step: "fixFile h options fs entry = (res, fs1)"
    by (cases "fixFile h options fs entry") auto
  obtain ro where res: "res = Inr ro"
  proof (cases res)
    case (Inl e)
    with step Cons.prems(2) show ?thesis by simp
  next
    case (Inr ro)
    with that show ?thesis .
  qed
  obtain results1 where run: "fixFiles h options entries results1 fs1 = (Inr results, fs')"
  proof (cases ro)
    case None
    with res step Cons.prems(2) have "fixFiles h options entries results0 fs1 = (Inr results, fs')"
      by simp
    with that show ?thesis .
  next
    case (Some r0)
    with res step Cons.prems(2)
    have "fixFiles h options entries (results0 @ [r0]) fs1 = (Inr results, fs')" by simp
    with that show ?thesis .
  qed
  note ih = Cons.IH[OF noalias run]
  from ih have ih1: "\<And>p. fs' p \<noteq> fs1 p \<Longrightarrow>
            \<exists>e \<in> set entries. \<exists>orig. p = targetPath h (fst e) @ backupSuffix
               \<and> fs1 (targetPath h (fst e)) = Some (File orig) \<and> fs' p = Some (File orig)"
    by blast
  from ih have ih2: "\<And>e orig. e \<in> set entries \<Longrightarrow> fs1 (targetPath h (fst e)) = Some (File orig)
               \<Longrightarrow> 0 < snd (fixLoop (filter canAutoFix (snd e)) orig 0)
               \<Longrightarrow> fs' (targetPath h (fst e) @ backupSuffix) = Some (File orig)"
    by blast
  have step_cases: "fs1 = fs \<or> (\<exists>orig. fs (targetPath h (fst entry)) = Some (File orig)
       \<and> fs1 = fs(targetPath h (fst entry) @ backupSuffix \<mapsto> File orig))"
    using fixFile_dry[OF dry bk step] res by (cases ro) auto
  have unchanged: "fs1 (targetPath h (fst e)) = fs (targetPath h (fst e))"
    if "e \<in> set (entry # entries)" for e
  proof -
    from that have "fst e \<in> fst ` set (entry # entries)" by (rule imageI)
    from Cons.prems(1)[OF this, of "fst entry"]
    have "targetPath h (fst e) \<noteq> targetPath h (fst entry) @ backupSuffix" by simp
    with step_cases show ?thesis by auto
  qed
  have part1: "\<exists>e \<in> set (entry # entries). \<exists>orig. p = targetPath h (fst e) @ backupSuffix
               \<and> fs (targetPath h (fst e)) = Some (File orig) \<and> fs' p = Some (File orig)"
    if d: "fs' p \<noteq> fs p" for p
  proof (cases "fs' p = fs1 p")
    case True
    with d have "fs1 p \<noteq> fs p" by simp
    with step_cases obtain orig where o: "fs (targetPath h (fst entry)) = Some (File orig)"
      and f: "fs1 = fs(targetPath h (fst entry) @ backupSuffix \<mapsto> File orig)" by auto
    from f \<open>fs1 p \<noteq> fs p\<close> have p: "p = targetPath h (fst entry) @ backupSuffix"
      by (auto split: if_splits)
    with f True have "fs' p = Some (File orig)" by simp
    with p o show ?thesis by auto
  next
    case False
    from ih1[OF False] obtain e orig where e: "e \<in> set entries"
      and p: "p = targetPath h (fst e) @ backupSuffix"
      and o: "fs1 (targetPath h (fst e)) = Some (File orig)"
      and f: "fs' p = Some (File orig)" by blast
    from e have "e \<in> set (entry # entries)" by simp
    from unchanged[OF this] o have "fs (targetPath h (fst e)) = Some (File orig)" by simp
    with e p f show ?thesis by auto
  qed
  have part2: "fs' (targetPath h (fst e) @ backupSuffix) = Some (File orig)"
    if e: "e \<in> set (entry # entries)" and o: "fs (targetPath h (fst e)) = Some (File orig)"
      and pos: "0 < snd (fixLoop (filter canAutoFix (snd e)) orig 0)" for e orig
  proof (cases "e \<in> set entries")
    case True
    from unchanged[OF e] o have "fs1 (targetPath h (fst e)) = Some (File orig)" by simp
    from ih2[OF True this pos] show ?thesis .
  next
    case False
    with e have ee: "e = entry" by simp
    from step res have "fixFile h options fs entry = (Inr ro, fs1)" by simp
    from fixFile_dry_changed[OF dry bk o[unfolded ee] pos[unfolded ee] this]
    have f: "fs1 = fs(targetPath h (fst entry) @ backupSuffix \<mapsto> File orig)" .
    show ?thesis
    proof (cases "fs' (targetPath h (fst e) @ backupSuffix) = fs1 (targetPath h (fst e) @ backupSuffix)")
      case True
      with f ee show ?thesis by simp
    next
      case False
      from ih1[OF False] obtain e2 orig2 where e2: "e2 \<in> set entries"
        and p: "targetPath h (fst e) @ backupSuffix = targetPath h (fst e2) @ backupSuffix"
        and o2: "fs1 (targetPath h (fst e2)) = Some (File orig2)"
        and f2: "fs' (targetPath h (fst e) @ backupSuffix) = Some (File orig2)" by blast
      from p have same: "targetPath h (fst e2) = targetPath h (fst e)" by simp
      from unchanged[OF e] o same o2 have "orig2 = orig" by simp
      with f2 show ?thesis by simp
    qed
  qed
  from part1 part2 show ?case by blast
qed

lemma keys_push:
  "fst ` set (map (\<lambda>(k, v). if k = f then (k, v @ [i]) else (k, v)) grouped) = fst ` set grouped"
  by (induction grouped) auto

lemma groupLoop_keys:
  "groupLoop issues grouped = Inr g \<Longrightarrow> fst ` set g \<subseteq> fst ` set grouped \<union> issue_file ` set issues"
proof (induction issues arbitrary: grouped)
  case Nil
  then show ?case by simp
next
  case (Cons issue issues)
  from Cons.prems have np: "issue_file issue \<notin> set objectPrototypeNames"
    by (cases "issue_file issue \<in> set objectPrototypeNames") simp_all
  show ?case
  proof (cases "map_of grouped (issue_file issue) = None")
    case True
    from Cons.prems have "groupLoop issues (grouped @ [(issue_file issue, [issue])]) = Inr g"
      by (simp only: groupLoop.simps np True if_False if_True simp_thms)
    from Cons.IH[OF this] show ?thesis by auto
  next
    case False
    let ?g = "map (\<lambda>(k, v). if k = issue_file issue then (k, v @ [issue]) else (k, v)) grouped"
    from Cons.prems have "groupLoop issues ?g = Inr g"
      by (simp only: groupLoop.simps np False if_False simp_thms)
    from Cons.IH[OF this] have "fst ` set g \<subseteq> fst ` set ?g \<union> issue_file ` set issues" .
    then show ?thesis unfolding keys_push by auto
  qed
qed

lemma set_objectEntries: "set (objectEntries kvs) = set kvs"
  by (auto simp: objectEntries_def)


lemma map_of_push:
  "map_of (map (\<lambda>(k, v). if k = f0 then (k, v @ [i]) else (k, v)) grouped) f
   = (if f = f0 then map_option (\<lambda>v. v @ [i]) (map_of grouped f) else map_of grouped f)"
  by (induction grouped) auto

text \<open>What \<open>groupByFile\<close> holds for a file: its issues, in their order.\<close>

lemma groupLoop_lookup:
  "groupLoop issues grouped = Inr g \<Longrightarrow>
   map_of g f = (case map_of grouped f of
                   None \<Rightarrow> (if filter (\<lambda>i. issue_file i = f) issues = [] then None
                            else Some (filter (\<lambda>i. issue_file i = f) issues))
                 | Some v \<Rightarrow> Some (v @ filter (\<lambda>i. issue_file i = f) issues))"
proof (induction issues arbitrary: grouped)
  case Nil
  then show ?case by (simp split: option.split)
next
  case (Cons issue issues)
  from Cons.prems have np: "issue_file issue \<notin> set objectPrototypeNames"
    by (cases "issue_file issue \<in> set objectPrototypeNames") simp_all
  show ?case
  proof (cases "map_of grouped (issue_file issue) = None")
    case True
    from Cons.prems have "groupLoop issues (grouped @ [(issue_file issue, [issue])]) = Inr g"
      by (simp only: groupLoop.simps np True if_False if_True simp_thms)
    from Cons.IH[OF this] True show ?thesis
      by (cases "f = issue_file issue") (auto simp: map_add_def split: option.split)
  next
    case False
    let ?g = "map (\<lambda>(k, v). if k = issue_file issue then (k, v @ [issue]) else (k, v)) grouped"
    from Cons.prems have "groupLoop issues ?g = Inr g"
      by (simp only: groupLoop.simps np False if_False simp_thms)
    from Cons.IH[OF this] False show ?thesis
      by (cases "f = issue_file issue") (auto simp: map_of_push split: option.split)
  qed
qed

lemma groupByFile_entry:
  assumes "groupByFile issues = Inr g" and "filter (\<lambda>i. issue_file i = f) issues \<noteq> []"
  shows "(f, filter (\<lambda>i. issue_file i = f) issues) \<in> set g"
proof -
  from groupLoop_lookup[of issues "[]" g f] assms
  have "map_of g f = Some (filter (\<lambda>i. issue_file i = f) issues)"
    by (simp add: groupByFile_def)
  then show ?thesis by (rule map_of_SomeD)
qed

section \<open>The claims\<close>

subsection \<open>C1: the budget of the context expansion\<close>

text \<open>
  Claim C1 as stated fails when the seed is longer than the budget: the output starts
  as a copy of the seed and the loop only stops adding to it.
\<close>

theorem C1_seed_above_budget:
  "expandContextByImports (posixHost ''/w'') (\<lambda>p. None)
     [\<lparr> path = ''a.ts'', content = [] \<rparr>, \<lparr> path = ''b.ts'', content = [] \<rparr>] 1
   = Some [\<lparr> path = ''a.ts'', content = [] \<rparr>, \<lparr> path = ''b.ts'', content = [] \<rparr>]"
  by (simp add: expandContextByImports_def expandLoop.simps)

text \<open>
  Claim C1, amended.  For every seed and every budget the expansion returns, its output
  has at most as many entries as the larger of the budget and the length of the seed
  (so at most \<open>maxFiles\<close> entries when the seed has no more than that), and the output
  starts with the seed, so it is a superset of it.
\<close>

theorem C1_budget_and_seed:
  "\<exists>out. expandContextByImports h fs seed maxFiles = Some out
     \<and> int (length out) \<le> max maxFiles (int (length seed))
     \<and> prefix seed out"
  unfolding expandContextByImports_def
  using expandLoop_result[of h fs maxFiles seed seed "set (map path seed)"] by auto

subsection \<open>C2: line numbers of added lines\<close>

text \<open>
  Claim C2.  For a diff with one file header, the hunk header \<open>@@ -1,3 +10,3 @@\<close> and
  three added lines, the claim expects the lines to be numbered 10, 11 and 12.  The
  scanner sets the counter to 10 at the hunk header and adds one before it scans an
  added line, so the three lines are reported as lines 11, 12 and 13.
\<close>

theorem C2_hunk_lines_off_by_one:
  "map (\<lambda>i. (snippet i, line i))
     (heuristicScan (''--- a/src/a.js'' @ [nl] @ ''+++ b/src/a.js'' @ [nl]
        @ ''@@ -1,3 +10,3 @@'' @ [nl]
        @ ''+eval(a)'' @ [nl] @ ''+eval(b)'' @ [nl] @ ''+eval(c)'' @ [nl]) [])
   = [(Some ''eval(a)'', Some 11), (Some ''eval(b)'', Some 12), (Some ''eval(c)'', Some 13)]"
  by code_simp

subsection \<open>C5: no two entries with the same path\<close>

text \<open>
  Claim C5 as stated fails for a seed that names a path twice: the set of seen paths
  only keeps the expansion from adding a path again, the seed itself is copied as it
  is.
\<close>

theorem C5_duplicate_in_seed:
  "expandContextByImports (posixHost ''/w'') (\<lambda>p. None)
     [\<lparr> path = ''a.ts'', content = ''x'' \<rparr>, \<lparr> path = ''a.ts'', content = ''x'' \<rparr>] 20
   = Some [\<lparr> path = ''a.ts'', content = ''x'' \<rparr>, \<lparr> path = ''a.ts'', content = ''x'' \<rparr>]"
  by code_simp

text \<open>
  Claim C5, amended.  For every budget and every seed in which no two entries have the
  same path, the expansion returns and no two entries of its output have the same path.
\<close>

theorem C5_no_duplicates:
  assumes "distinct (map path seed)"
  shows "\<exists>out. expandContextByImports h fs seed maxFiles = Some out \<and> distinct (map path out)"
proof -
  from expandLoop_result[of h fs maxFiles seed seed "set (map path seed)"]
  obtain extra where "expandLoop h fs maxFiles (seed, seed, set (map path seed)) = Some (seed @ extra)"
    "distinct (map path extra)" "set (map path extra) \<inter> set (map path seed) = {}" by blast
  with assms show ?thesis by (auto simp: expandContextByImports_def)
qed

theorem C5_no_duplicates_witness:
  "distinct (map path [\<lparr> path = ''a.ts'', content = ''import x from '' @ [sq] @ ''./b'' @ [sq] \<rparr>])
   \<and> (\<exists>out. expandContextByImports (posixHost ''/w'')
          [''/w/b.ts'' \<mapsto> File ''export const b = 1;'', ''b.ts'' \<mapsto> File ''export const b = 1;'']
          [\<lparr> path = ''a.ts'', content = ''import x from '' @ [sq] @ ''./b'' @ [sq] \<rparr>] 5 = Some out
        \<and> distinct (map path out))"
proof -
  have d: "distinct (map path [\<lparr> path = ''a.ts'', content = ''import x from '' @ [sq] @ ''./b'' @ [sq] \<rparr>])"
    by simp
  from C5_no_duplicates[OF d] d show ?thesis by blast
qed

subsection \<open>C6: hardcoded secrets\<close>

text \<open>
  Claim C6 as stated fails for the bare name \<open>key\<close>: the pattern of the rule names
  \<open>password\<close>, \<open>secret\<close>, \<open>api_key\<close> (also \<open>api-key\<close>, \<open>apikey\<close>) and \<open>token\<close>,
  so a line that assigns a quoted literal to \<open>key\<close> yields no issue.
\<close>

theorem C6_bare_key_not_reported:
  "heuristicScan (''+++ b/src/a.js'' @ [nl] @ ''@@ -0,0 +1,1 @@'' @ [nl]
      @ ''+const key = '' @ [dq] @ ''abc'' @ [dq] @ '';'') [] = []"
  by code_simp

text \<open>
  Claim C6, amended.  Take a diff line that begins with \<open>+\<close> and not with \<open>+++\<close>, whose
  text after the \<open>+\<close> holds one of the names \<open>password\<close>, \<open>secret\<close>, \<open>api_key\<close>,
  \<open>api-key\<close>, \<open>apikey\<close>, \<open>token\<close> in lower case, then optional white space, an equals
  sign, optional white space, a quote, one or more characters none of which is a quote,
  and a quote.  Whatever lines come before and after it in the diff, the output of the
  heuristic scanner is the issues of the earlier lines, then the issues of this line,
  then the issues of the later lines; and among the issues of this line exactly one is
  of the class "hardcoded secret": its severity is critical and it carries the current
  file, the line counter and the trimmed line.
\<close>

theorem C6_hardcoded_secret:
  assumes "kw \<in> {''password'', ''secret'', ''api_key'', ''api-key'', ''apikey'', ''token''}"
    and "list_all isWhiteSpace ws1" and "list_all isWhiteSpace ws2"
    and "q1 = sq \<or> q1 = dq" and "q2 = sq \<or> q2 = dq"
    and "body \<noteq> []" and "sq \<notin> set body" and "dq \<notin> set body"
    and "added = pre @ kw @ ws1 @ ''='' @ ws2 @ [q1] @ body @ [q2] @ post"
    and "\<not> startsWith added ''++''"
    and "splitOn nl diff = earlier @ [''+'' @ added] @ later"
    and "scanState earlier [] 0 = (currentFile, lineNumber)"
  shows "heuristicScan diff context_files
         = scanLines earlier [] 0 [] @ scanAdded currentFile (lineNumber + 1) added
           @ scanLines later currentFile (lineNumber + 1) []
       \<and> filter (\<lambda>i. problem i = ''Security: Hardcoded secret detected'')
           (scanAdded currentFile (lineNumber + 1) added)
         = [\<lparr> issue_file = currentFile, problem = ''Security: Hardcoded secret detected'',
              issue_fix = ''Move to environment variables (.env)'',
              severity = Some (JString ''critical''), line = Some (lineNumber + 1),
              snippet = Some (trim added), autoFixable = None, fixedCode = None \<rparr>]"
proof
  have "heuristicScan diff context_files
      = scanLines (earlier @ ((''+'' @ added) # later)) [] 0 []"
    by (simp only: heuristicScan_def assms(11) append_Cons append_Nil)
  also have "\<dots> = scanLines ((''+'' @ added) # later) (fst (scanState earlier [] 0))
      (snd (scanState earlier [] 0)) (scanLines earlier [] 0 [])"
    by (rule scanLines_append)
  also have "\<dots> = scanLines ((''+'' @ added) # later) currentFile lineNumber
      (scanLines earlier [] 0 [])"
    by (simp only: assms(12) fst_conv snd_conv)
  also have "\<dots> = scanLines later currentFile (lineNumber + 1)
      ((scanLines earlier [] 0 [] @ scanAdded currentFile (lineNumber + 1) added) @ [])"
    by (simp only: scanLines_added[OF assms(10)] append_Nil2)
  also have "\<dots> = (scanLines earlier [] 0 [] @ scanAdded currentFile (lineNumber + 1) added)
      @ scanLines later currentFile (lineNumber + 1) []"
    by (rule scanLines_results)
  finally show "heuristicScan diff context_files
         = scanLines earlier [] 0 [] @ scanAdded currentFile (lineNumber + 1) added
           @ scanLines later currentFile (lineNumber + 1) []" by simp
next
  have t: "regexTest rx_hardcodedSecret added"
    using hardcodedSecret_test[OF assms(1-8), of pre post] by (simp only: assms(9))
  have g: "includesStr added ''password'' \<or> includesStr added ''secret''
       \<or> includesStr added ''key'' \<or> includesStr added ''token''"
    using secret_guard[OF assms(1), of pre "ws1 @ ''='' @ ws2 @ [q1] @ body @ [q2] @ post"]
    by (simp only: assms(9))
  show "filter (\<lambda>i. problem i = ''Security: Hardcoded secret detected'')
           (scanAdded currentFile (lineNumber + 1) added)
         = [\<lparr> issue_file = currentFile, problem = ''Security: Hardcoded secret detected'',
              issue_fix = ''Move to environment variables (.env)'',
              severity = Some (JString ''critical''), line = Some (lineNumber + 1),
              snippet = Some (trim added), autoFixable = None, fixedCode = None \<rparr>]"
    unfolding scanAdded_def filter_append filter_rule
    using t g by (simp add: mkIssue_def)
qed

theorem C6_hardcoded_secret_witness:
  "splitOn nl (''+++ b/src/a.js'' @ [nl] @ ''@@ -0,0 +7,1 @@'' @ [nl]
       @ ''+const password = '' @ [dq] @ ''hunter2'' @ [dq] @ '';'')
     = [''+++ b/src/a.js'', ''@@ -0,0 +7,1 @@'']
       @ [''+'' @ (''const password = '' @ [dq] @ ''hunter2'' @ [dq] @ '';'')] @ []
   \<and> scanState [''+++ b/src/a.js'', ''@@ -0,0 +7,1 @@''] [] 0 = (''src/a.js'', 7)
   \<and> \<not> startsWith (''const password = '' @ [dq] @ ''hunter2'' @ [dq] @ '';'') ''++''
   \<and> heuristicScan (''+++ b/src/a.js'' @ [nl] @ ''@@ -0,0 +7,1 @@'' @ [nl]
       @ ''+const password = '' @ [dq] @ ''hunter2'' @ [dq] @ '';'') []
     = scanLines [''+++ b/src/a.js'', ''@@ -0,0 +7,1 @@''] [] 0 []
       @ scanAdded ''src/a.js'' (7 + 1) (''const password = '' @ [dq] @ ''hunter2'' @ [dq] @ '';'')
       @ scanLines [] ''src/a.js'' (7 + 1) []
   \<and> filter (\<lambda>i. problem i = ''Security: Hardcoded secret detected'')
       (scanAdded ''src/a.js'' (7 + 1) (''const password = '' @ [dq] @ ''hunter2'' @ [dq] @ '';''))
     = [\<lparr> issue_file = ''src/a.js'', problem = ''Security: Hardcoded secret detected'',
          issue_fix = ''Move to environment variables (.env)'',
          severity = Some (JString ''critical''), line = Some (7 + 1),
          snippet = Some (trim (''const password = '' @ [dq] @ ''hunter2'' @ [dq] @ '';'')),
          autoFixable = None, fixedCode = None \<rparr>]"
proof -
  have s: "splitOn nl (''+++ b/src/a.js'' @ [nl] @ ''@@ -0,0 +7,1 @@'' @ [nl]
       @ ''+const password = '' @ [dq] @ ''hunter2'' @ [dq] @ '';'')
     = [''+++ b/src/a.js'', ''@@ -0,0 +7,1 @@'']
       @ [''+'' @ (''const password = '' @ [dq] @ ''hunter2'' @ [dq] @ '';'')] @ []"
    by code_simp
  have st: "scanState [''+++ b/src/a.js'', ''@@ -0,0 +7,1 @@''] [] 0 = (''src/a.js'', 7)"
    by code_simp
  have n: "\<not> startsWith (''const password = '' @ [dq] @ ''hunter2'' @ [dq] @ '';'') ''++''"
    by code_simp
  have w: "list_all isWhiteSpace '' ''" by (simp add: isWhiteSpace_def)
  have k: "''password'' \<in> {''password'', ''secret'', ''api_key'', ''api-key'', ''apikey'', ''token''}"
    by simp
  have e: "''const password = '' @ [dq] @ ''hunter2'' @ [dq] @ '';''
      = ''const '' @ ''password'' @ '' '' @ ''='' @ '' '' @ [dq] @ ''hunter2'' @ [dq] @ '';''"
    by simp
  have b: "''hunter2'' \<noteq> []" "sq \<notin> set ''hunter2''" "dq \<notin> set ''hunter2''" by simp_all
  have q: "dq = sq \<or> dq = dq" by simp
  note c = C6_hardcoded_secret[OF k w w q q b e n s st, of "[]"]
  show ?thesis
    apply (intro conjI)
        apply (rule s)
       apply (rule st)
      apply (rule n)
     apply (rule c[THEN conjunct1])
    apply (rule c[THEN conjunct2])
    done
qed

text \<open>
  Both conditions on the line are needed.  An added line whose text begins with \<open>++\<close>
  makes a diff line that begins with \<open>+++\<close>, which the scanner skips; and the pattern
  wants a character that is not a quote right after the opening quote.
\<close>

lemma hardcodedSecret_limits:
  "heuristicScan (''+++ b/src/a.js'' @ [nl] @ ''@@ -0,0 +1,1 @@'' @ [nl]
      @ ''+++i; token = '' @ [dq] @ ''abc'' @ [dq] @ '';'') [] = []
   \<and> heuristicScan (''+++ b/src/a.js'' @ [nl] @ ''@@ -0,0 +1,1 @@'' @ [nl]
      @ ''+password = '' @ [dq, sq] @ ''abc'' @ [dq]) [] = []"
  by code_simp

subsection \<open>C7: images without an alternative text\<close>

text \<open>
  Claim C7.  The rule is meant to fire on an \<open>img\<close> tag that lacks an \<open>alt\<close> attribute.
  Its pattern puts the negative look-ahead after a greedy run of characters, so it
  matches whenever \<open><img\<close> is followed by a character other than \<open>>\<close>: a tag that
  has an \<open>alt\<close> attribute is reported, and the bare tag \<open><img>\<close>, which lacks one, is
  not.
\<close>

theorem C7_alt_attribute_misjudged:
  "map problem (heuristicScan (''+++ b/index.html'' @ [nl] @ ''@@ -0,0 +1,1 @@'' @ [nl]
      @ ''+<img alt='' @ [dq] @ ''logo'' @ [dq] @ '' src='' @ [dq] @ ''a.png'' @ [dq] @ ''>'') [])
   = [''Accessibility: Missing alt attribute'']
   \<and> heuristicScan (''+++ b/index.html'' @ [nl] @ ''@@ -0,0 +1,1 @@'' @ [nl] @ ''+<img>'') [] = []"
  by code_simp

subsection \<open>C4: idempotence of the safe transformations\<close>

text \<open>
  Claim C4.  Each of the three transformations is meant to leave already-fixed text
  alone.  The strict-equality pattern consumes the character after \<open>==\<close>, so in
  \<open>a==b==c\<close> one pass rewrites only the first operator and leaves \<open>b==c\<close> loose; the
  second pass rewrites the other one.  The console-removal pass can join the text
  around a removed call into a new call, which only the second pass removes.
\<close>

theorem C4_not_idempotent:
  "strictEquality ''a==b==c'' = ''a===b==c''
   \<and> strictEquality (strictEquality ''a==b==c'') = ''a===b===c''
   \<and> removeConsole ''conconsole.log(1);sole.log(2);'' = ''console.log(2);''
   \<and> removeConsole (removeConsole ''conconsole.log(1);sole.log(2);'') = []"
  by code_simp

text \<open>
  The trailing-whitespace transformation is idempotent on every text: applying it
  twice yields the same text as applying it once.
\<close>

theorem trimWhitespace_idempotent:
  "trimWhitespace (trimWhitespace x) = trimWhitespace x"
  by (simp add: trimWhitespace_stripTrailing stripTrailing_idem)

subsection \<open>C3: the fallback to the heuristic scanner\<close>

text \<open>
  Claim C3.  With the API key present, whenever the network call fails, the response
  is not OK, anything in reading the answer throws, or the answer yields no issue, the
  result is the output of the heuristic scanner on the diff, and no error is passed on.
\<close>

theorem C3_fallback_on_failure:
  assumes "apiKey = Some k" and "k \<noteq> []"
    and "outcome = FetchFails \<or> (\<exists>status body. outcome = Response False status body)
         \<or> isl (remoteIssues h outcome) \<or> remoteIssues h outcome = Inr []"
  shows "analyzeWithGroq h apiKey outcome diff contextFiles = Inr (heuristicScan diff contextFiles)"
proof -
  from assms(3) have "isl (remoteIssues h outcome) \<or> remoteIssues h outcome = Inr []"
    by (auto simp: remoteIssues_def)
  with assms(1,2) show ?thesis
    by (cases "remoteIssues h outcome") (auto simp: analyzeWithGroq_def)
qed

theorem C3_fallback_on_failure_witness:
  "Some ''key'' = Some ''key'' \<and> ''key'' \<noteq> []
   \<and> remoteIssues exampleHost (Response True 200 (Some exampleEmptyAnswer)) = Inr []
   \<and> analyzeWithGroq exampleHost (Some ''key'') (Response True 200 (Some exampleEmptyAnswer))
         exampleDiff [] = Inr (heuristicScan exampleDiff [])"
proof -
  have r: "remoteIssues exampleHost (Response True 200 (Some exampleEmptyAnswer)) = Inr []"
    by code_simp
  then have "Response True 200 (Some exampleEmptyAnswer) = FetchFails
      \<or> (\<exists>status body. Response True 200 (Some exampleEmptyAnswer) = Response False status body)
      \<or> isl (remoteIssues exampleHost (Response True 200 (Some exampleEmptyAnswer)))
      \<or> remoteIssues exampleHost (Response True 200 (Some exampleEmptyAnswer)) = Inr []"
    by simp
  from C3_fallback_on_failure[OF refl _ this, of "''key''" exampleDiff "[]"] r
  show ?thesis by simp
qed

subsection \<open>C8: extracting the issues from a free text\<close>

text \<open>
  Claim C8.  The pattern of the extraction takes the text from the first opening
  bracket to the first closing bracket after it, not to the bracket that balances it.
  The example array parses on its own to one issue; after the words \<open>Issues:\<close> the
  extraction cuts it at the bracket that closes the inner array, the cut text does not
  parse, and the result is the empty list.
\<close>

theorem C8_nested_array_not_extracted:
  "safeParseIssues exampleHost (JString exampleArray) = Inr [exampleIssue]
   \<and> map_option fst (stringMatch (''Issues: '' @ exampleArray) rx_jsonBlock)
       = Some (take (length exampleArray - 2) exampleArray)
   \<and> safeParseIssues exampleHost (JString (''Issues: '' @ exampleArray)) = Inr []"
  by code_simp

subsection \<open>C9: issues parsed from the answer carry no snippet\<close>

text \<open>
  Claim C9.  Every issue that comes out of parsing an answer of the remote analyzer
  has no line, no snippet, no fixed code (and no auto-fixable mark); so applying its
  fix never replaces a snippet by fixed code, it goes by the patterns on the problem
  text.
\<close>

theorem C9_parsed_issues_plain:
  assumes "safeParseIssues h text = Inr issues" and "i \<in> set issues"
  shows "line i = None \<and> snippet i = None \<and> fixedCode i = None \<and> autoFixable i = None
       \<and> applyIssueFix contents i = patternFix contents i"
proof -
  from safeParseIssues_plain[OF assms]
  have p: "line i = None \<and> snippet i = None \<and> fixedCode i = None \<and> autoFixable i = None" .
  then have "applyIssueFix contents i = patternFix contents i"
    by (simp add: applyIssueFix_def truthy_def)
  with p show ?thesis by simp
qed

theorem C9_parsed_issues_plain_witness:
  "safeParseIssues exampleHost (JString exampleArray) = Inr [exampleIssue]
   \<and> exampleIssue \<in> set [exampleIssue]
   \<and> line exampleIssue = None \<and> snippet exampleIssue = None \<and> fixedCode exampleIssue = None
   \<and> autoFixable exampleIssue = None
   \<and> applyIssueFix ''var x = 1;'' exampleIssue = patternFix ''var x = 1;'' exampleIssue"
proof -
  have e: "safeParseIssues exampleHost (JString exampleArray) = Inr [exampleIssue]"
    by code_simp
  from C9_parsed_issues_plain[OF e, of exampleIssue "''var x = 1;''"] e show ?thesis by simp
qed

subsection \<open>C10: a dry run with backups\<close>

text \<open>
  Claim C10 as stated fails when the target of one issue is the backup path of the
  target of another.  The files \<open>a.js\<close> and \<open>a.js.prefl-backup\<close> both have an issue
  that changes their content in memory; the dry run writes the backup of \<open>a.js\<close> over
  the second file, so that target is changed on disk, and the backup then made of it
  holds the content of \<open>a.js\<close>, not its own original content.
\<close>

theorem C10_backup_overwrites_target:
  "exampleFiles ''/w/a.js.prefl-backup'' = Some (File ''var y = 2;'')
   \<and> (case applyAutoFixes exampleHost [varIssue ''a.js'', varIssue ''a.js.prefl-backup'']
             \<lparr> dryRun = True, backup = True \<rparr> exampleFiles of
        (res, fs') \<Rightarrow>
          map_sum id (map (\<lambda>r. (result_file r, fixesApplied r))) res
            = Inr [(''a.js'', 1), (''a.js.prefl-backup'', 1)]
          \<and> fs' ''/w/a.js.prefl-backup'' = Some (File ''var x = 1;'')
          \<and> fs' ''/w/a.js.prefl-backup.prefl-backup'' = Some (File ''var x = 1;''))"
  by code_simp

text \<open>
  Claim C10, amended.  Take a call of \<open>applyAutoFixes\<close> with \<open>dryRun\<close> and \<open>backup\<close> set that
  returns without throwing, on issues none of whose target paths is the backup path
  (the target path plus the suffix) of the target of an issue.  Then for every file
  that exists with some original content and whose auto-fixable issues, applied in
  their order to that content, change it at least once, the target file on disk still
  holds the original content after the call, and the backup path holds the original
  content too.
\<close>

theorem C10_dry_run_backup:
  assumes "dryRun options" and "backup options"
    and "\<And>i j. i \<in> set issues \<Longrightarrow> j \<in> set issues \<Longrightarrow>
           targetPath h (issue_file i) \<noteq> targetPath h (issue_file j) @ backupSuffix"
    and "applyAutoFixes h issues options fs = (Inr results, fs')"
    and "fs (targetPath h f) = Some (File original)"
    and "0 < snd (fixLoop (filter (\<lambda>i. issue_file i = f \<and> canAutoFix i) issues) original 0)"
  shows "fs' (targetPath h f) = Some (File original)
       \<and> fs' (targetPath h f @ backupSuffix) = Some (File original)"
proof -
  from assms(4) have "\<exists>grouped. groupByFile issues = Inr grouped
      \<and> fixFiles h options (objectEntries grouped) [] fs = (Inr results, fs')"
    by (cases "groupByFile issues") (simp_all add: applyAutoFixes_def)
  then obtain grouped where g: "groupByFile issues = Inr grouped"
    and run: "fixFiles h options (objectEntries grouped) [] fs = (Inr results, fs')"
    by blast
  from g have "groupLoop issues [] = Inr grouped" by (simp only: groupByFile_def)
  from groupLoop_keys[OF this]
  have keys: "fst ` set (objectEntries grouped) \<subseteq> issue_file ` set issues"
    by (simp add: set_objectEntries)
  have noalias: "\<And>a b. a \<in> fst ` set (objectEntries grouped) \<Longrightarrow>
      b \<in> fst ` set (objectEntries grouped) \<Longrightarrow>
      targetPath h a \<noteq> targetPath h b @ backupSuffix"
  proof -
    fix a b
    assume a: "a \<in> fst ` set (objectEntries grouped)"
      and b: "b \<in> fst ` set (objectEntries grouped)"
    from a keys have "a \<in> issue_file ` set issues" by (rule subsetD[rotated])
    then obtain i where i: "i \<in> set issues" "a = issue_file i" by blast
    from b keys have "b \<in> issue_file ` set issues" by (rule subsetD[rotated])
    then obtain j where j: "j \<in> set issues" "b = issue_file j" by blast
    from assms(3)[OF i(1) j(1)] i(2) j(2)
    show "targetPath h a \<noteq> targetPath h b @ backupSuffix" by simp
  qed
  let ?mine = "filter (\<lambda>i. issue_file i = f) issues"
  have ff: "filter canAutoFix ?mine = filter (\<lambda>i. issue_file i = f \<and> canAutoFix i) issues"
    by (simp only: filter_filter)
  have "?mine \<noteq> []"
  proof
    assume "?mine = []"
    then have "filter canAutoFix ?mine = []" by (simp only: filter.simps)
    then have "filter (\<lambda>i. issue_file i = f \<and> canAutoFix i) issues = []"
      by (simp only: ff)
    with assms(6) show False by (simp only: fixLoop.simps snd_conv less_irrefl)
  qed
  with g have "(f, ?mine) \<in> set grouped" by (rule groupByFile_entry)
  then have e: "(f, ?mine) \<in> set (objectEntries grouped)" by (simp only: set_objectEntries)
  from e have k: "f \<in> fst ` set (objectEntries grouped)" by (rule image_eqI[rotated]) simp
  have inv: "(\<forall>p. fs' p \<noteq> fs p \<longrightarrow>
            (\<exists>e \<in> set (objectEntries grouped). \<exists>orig. p = targetPath h (fst e) @ backupSuffix
               \<and> fs (targetPath h (fst e)) = Some (File orig) \<and> fs' p = Some (File orig)))
         \<and> (\<forall>e \<in> set (objectEntries grouped). \<forall>orig. fs (targetPath h (fst e)) = Some (File orig)
               \<and> 0 < snd (fixLoop (filter canAutoFix (snd e)) orig 0)
               \<longrightarrow> fs' (targetPath h (fst e) @ backupSuffix) = Some (File orig))"
    by (rule fixFiles_dry[OF assms(1,2) _ run]) (rule noalias)
  note inv1 = inv[THEN conjunct1, rule_format]
  note inv2 = inv[THEN conjunct2, rule_format]
  have same: "fs' (targetPath h f) = fs (targetPath h f)"
  proof (rule ccontr)
    assume "fs' (targetPath h f) \<noteq> fs (targetPath h f)"
    from inv1[OF this] obtain e2 where e2: "e2 \<in> set (objectEntries grouped)"
      and eq: "targetPath h f = targetPath h (fst e2) @ backupSuffix" by blast
    from e2 have "fst e2 \<in> fst ` set (objectEntries grouped)" by (rule imageI)
    from noalias[OF k this] eq show False by contradiction
  qed
  have o: "fs (targetPath h (fst (f, ?mine))) = Some (File original)"
    using assms(5) by (simp only: fst_conv)
  have pos: "0 < snd (fixLoop (filter canAutoFix (snd (f, ?mine))) original 0)"
    using assms(6) by (simp only: snd_conv ff)
  from inv2[OF e conjI[OF o pos]]
  have "fs' (targetPath h f @ backupSuffix) = Some (File original)" by (simp only: fst_conv)
  with same assms(5) show ?thesis by (simp only: simp_thms)
qed

theorem C10_dry_run_backup_witness:
  "fst (applyAutoFixes exampleHost [varIssue ''a.js''] \<lparr> dryRun = True, backup = True \<rparr> exampleFiles)
     = Inr [\<lparr> result_file = ''a.js'', fixesApplied = 1, result_issues = [varIssue ''a.js''] \<rparr>]
   \<and> exampleFiles (targetPath exampleHost ''a.js'') = Some (File ''var x = 1;'')
   \<and> 0 < snd (fixLoop (filter (\<lambda>i. issue_file i = ''a.js'' \<and> canAutoFix i) [varIssue ''a.js''])
               ''var x = 1;'' 0)
   \<and> snd (applyAutoFixes exampleHost [varIssue ''a.js''] \<lparr> dryRun = True, backup = True \<rparr> exampleFiles)
         (targetPath exampleHost ''a.js'') = Some (File ''var x = 1;'')
   \<and> snd (applyAutoFixes exampleHost [varIssue ''a.js''] \<lparr> dryRun = True, backup = True \<rparr> exampleFiles)
         (targetPath exampleHost ''a.js'' @ backupSuffix) = Some (File ''var x = 1;'')"
proof -
  let ?run = "applyAutoFixes exampleHost [varIssue ''a.js''] \<lparr> dryRun = True, backup = True \<rparr> exampleFiles"
  have r: "fst ?run
     = Inr [\<lparr> result_file = ''a.js'', fixesApplied = 1, result_issues = [varIssue ''a.js''] \<rparr>]"
    by code_simp
  have o: "exampleFiles (targetPath exampleHost ''a.js'') = Some (File ''var x = 1;'')"
    by code_simp
  have p: "0 < snd (fixLoop (filter (\<lambda>i. issue_file i = ''a.js'' \<and> canAutoFix i) [varIssue ''a.js''])
               ''var x = 1;'' 0)"
    by code_simp
  have d: "dryRun \<lparr> dryRun = True, backup = True \<rparr>" by simp
  have b: "backup \<lparr> dryRun = True, backup = True \<rparr>" by simp
  have n: "\<And>i j. i \<in> set [varIssue ''a.js''] \<Longrightarrow> j \<in> set [varIssue ''a.js''] \<Longrightarrow>
      targetPath exampleHost (issue_file i) \<noteq> targetPath exampleHost (issue_file j) @ backupSuffix"
    by (simp add: backupSuffix_def)
  have e: "?run = (Inr [\<lparr> result_file = ''a.js'', fixesApplied = 1,
                         result_issues = [varIssue ''a.js''] \<rparr>], snd ?run)"
    by (rule prod_eqI) (simp_all only: fst_conv snd_conv r)
  have c: "snd ?run (targetPath exampleHost ''a.js'') = Some (File ''var x = 1;'')
     \<and> snd ?run (targetPath exampleHost ''a.js'' @ backupSuffix) = Some (File ''var x = 1;'')"
    by (rule C10_dry_run_backup[OF d b _ e o p]) (rule n)
  show ?thesis
    apply (intro conjI)
        apply (rule r)
       apply (rule o)
      apply (rule p)
     apply (rule c[THEN conjunct1])
    apply (rule c[THEN conjunct2])
    done
qed

text \<open>
  The call can also end before the backup is there: when the backup path is a
  directory, writing the backup throws and the call ends with that error.
\<close>

lemma dry_run_backup_throws:
  "fst (applyAutoFixes exampleHost [varIssue ''a.js''] \<lparr> dryRun = True, backup = True \<rparr>
         [''/w/a.js'' \<mapsto> File ''var x = 1;'', ''/w/a.js.prefl-backup'' \<mapsto> Unreadable])
   = Inl EISDIR"
  by code_simp

end
